theory Spec2Isabelle
  imports Main "HOL-Library.Word"
begin

unbundle bit_operations_syntax

section \<open>Constants and data of wwvb_dec.c\<close>

type_synonym u8 = "8 word"
type_synonym u32 = "32 word"

text \<open>
  The macros of the source. They are \<open>int\<close> constant expressions in C; all of them are
  small and non-negative, so their value as \<open>uint32_t\<close> is the same.
\<close>

definition SAMP_PERIOD :: u32 where
  "SAMP_PERIOD = 25"

definition BUF_LEN_IN_SEC :: u32 where
  "BUF_LEN_IN_SEC = 120"

definition SAMPLES_PER_SEC :: u32 where
  "SAMPLES_PER_SEC = 1000 div SAMP_PERIOD"

definition BLEN :: u32 where
  "BLEN = SAMPLES_PER_SEC * BUF_LEN_IN_SEC"

definition DECODE_FAILURE :: u32 where
  "DECODE_FAILURE = 9999"

text \<open>
  \<open>uint8_t bits[BLEN]\<close>, the source's "buffer of sampled bits from receiver", is a
  list of bytes: \<open>fill_buffer_gpio\<close> stores the 0 or 1 of \<open>gpioRead\<close>, and
  \<open>fill_buffer_file\<close> stores the bytes of a file as they are. A read at an index
  outside the array is undefined behaviour in C; the model makes it the value \<open>None\<close>,
  which every caller propagates.
\<close>

definition rd :: "u8 list \<Rightarrow> u32 \<Rightarrow> u8 option" where
  "rd bits i = (if unat i < length bits then Some (bits ! unat i) else None)"

section \<open>Symbol matcher: xor_sec, xor_mark, xor_zero, xor_one\<close>

text \<open>
  One \<open>for\<close> loop of \<open>xor_sec\<close>: \<open>for (i = ...; i < lim; i++) sum += ideal ^ bits[i]\<close>.
  The byte is promoted before the xor, and the sum is a \<open>uint32_t\<close>.
\<close>

function xor_sec_loop :: "u8 list \<Rightarrow> u32 \<Rightarrow> u32 \<Rightarrow> u32 \<Rightarrow> u32 \<Rightarrow> u32 option" where
  "xor_sec_loop bits ideal i lim sm =
     (if i < lim then
        (case rd bits i of
           None \<Rightarrow> None
         | Some b \<Rightarrow> xor_sec_loop bits ideal (i + 1) lim (sm + (ideal XOR ucast b)))
      else Some sm)"
  by pat_completeness auto
termination
proof -
  have dec: "unat lim - unat (i + 1) < unat lim - unat i" if "i < lim" for i lim :: u32
  proof -
    from that have lt: "unat i < unat lim"
      by (simp add: word_less_nat_alt)
    have "unat lim < 2 ^ LENGTH(32)"
      by (rule unsigned_less)
    with lt have "unat i + unat (1 :: u32) < 2 ^ LENGTH(32)"
      by simp
    then have "unat (i + 1) = unat i + 1"
      by (simp add: unat_add_lem [THEN iffD1])
    with lt show ?thesis
      by simp
  qed
  show ?thesis
    by (relation "measure (\<lambda>(bits, ideal, i, lim, sm). unat lim - unat i)")
       (simp_all add: dec)
qed

declare xor_sec_loop.simps [simp del]

definition xor_sec :: "u8 list \<Rightarrow> u32 \<Rightarrow> u32 \<Rightarrow> u32 \<Rightarrow> u32 option" where
  "xor_sec bits samp_idx zero_len one_len =
     (case xor_sec_loop bits 0 samp_idx (samp_idx + zero_len) 0 of
        None \<Rightarrow> None
      | Some sm \<Rightarrow>
          xor_sec_loop bits 1 (samp_idx + zero_len) (samp_idx + zero_len + one_len) sm)"

definition xor_mark :: "u8 list \<Rightarrow> u32 \<Rightarrow> u32 option" where
  "xor_mark bits samp_idx = xor_sec bits samp_idx (800 div SAMP_PERIOD) (200 div SAMP_PERIOD)"

definition xor_zero :: "u8 list \<Rightarrow> u32 \<Rightarrow> u32 option" where
  "xor_zero bits samp_idx = xor_sec bits samp_idx (200 div SAMP_PERIOD) (800 div SAMP_PERIOD)"

definition xor_one :: "u8 list \<Rightarrow> u32 \<Rightarrow> u32 option" where
  "xor_one bits samp_idx = xor_sec bits samp_idx (500 div SAMP_PERIOD) (500 div SAMP_PERIOD)"

section \<open>decode_sec\<close>

text \<open>
  \<open>decode_sec\<close> returns the symbol (0, 1, or 2 for a mark) and, through \<open>*score\<close>, the
  error count of that symbol; the model returns the pair.
\<close>

definition decode_sec :: "u8 list \<Rightarrow> u32 \<Rightarrow> (u32 \<times> u32) option" where
  "decode_sec bits samp_idx =
     (case xor_zero bits samp_idx of None \<Rightarrow> None | Some zero_score \<Rightarrow>
     (case xor_one bits samp_idx of None \<Rightarrow> None | Some one_score \<Rightarrow>
     (case xor_mark bits samp_idx of None \<Rightarrow> None | Some mark_score \<Rightarrow>
        (let (best_type, lscore) =
               (if one_score < zero_score then (1, one_score) else (0, zero_score))
         in if mark_score < lscore then Some (2, mark_score) else Some (best_type, lscore)))))"

section \<open>Frame synchronisation: frame_const_fields, xor_frame, find_frame\<close>

text \<open>
  The entries of \<open>frame_const_fields\<close>: \<open>type\<close> is 0 for a zero and 2 for a mark,
  \<open>sec\<close> the second within the frame. Both are \<open>int32_t\<close> in the source and hold small
  non-negative constants only, so they are kept as \<open>uint32_t\<close> values here.
\<close>

record const_field =
  type_f :: u32
  sec :: u32

definition frame_const_fields :: "const_field list" where
  "frame_const_fields = map (\<lambda>(t, s). \<lparr>type_f = t, sec = s\<rparr>)
     [(2, 0), (0, 4), (2, 9), (0, 10), (0, 11), (0, 14), (2, 19), (0, 20), (0, 21),
      (0, 24), (2, 29), (0, 34), (0, 35), (2, 39), (0, 44), (2, 49), (0, 54), (2, 59)]"

text \<open>The \<open>switch\<close> of \<open>xor_frame\<close>: it has no default, so another type adds nothing.\<close>

definition xor_frame_switch :: "u8 list \<Rightarrow> u32 \<Rightarrow> const_field \<Rightarrow> u32 \<Rightarrow> u32 option" where
  "xor_frame_switch bits samp_idx f sm =
     (if type_f f = 0 then
        (case xor_zero bits (samp_idx + sec f * SAMPLES_PER_SEC) of
           None \<Rightarrow> None | Some res \<Rightarrow> Some (sm + res))
      else if type_f f = 2 then
        (case xor_mark bits (samp_idx + sec f * SAMPLES_PER_SEC) of
           None \<Rightarrow> None | Some res \<Rightarrow> Some (sm + res))
      else Some sm)"

text \<open>The loop of \<open>xor_frame\<close> over the table, with its early \<open>return\<close>.\<close>

fun xor_frame_loop :: "u8 list \<Rightarrow> u32 \<Rightarrow> u32 \<Rightarrow> const_field list \<Rightarrow> u32 \<Rightarrow> u32 option" where
  "xor_frame_loop bits samp_idx min_val [] sm = Some sm"
| "xor_frame_loop bits samp_idx min_val (f # fs) sm =
     (case xor_frame_switch bits samp_idx f sm of
        None \<Rightarrow> None
      | Some sm' \<Rightarrow>
          if sm' > min_val then Some sm'
          else xor_frame_loop bits samp_idx min_val fs sm')"

definition xor_frame :: "u8 list \<Rightarrow> u32 \<Rightarrow> u32 \<Rightarrow> u32 option" where
  "xor_frame bits samp_idx min_val = xor_frame_loop bits samp_idx min_val frame_const_fields 0"

text \<open>
  The loop of \<open>find_frame\<close>. The result is the pair of the returned \<open>min_idx\<close> and the
  value stored through \<open>*min_val\<close>.
\<close>

function find_frame_loop :: "u8 list \<Rightarrow> u32 \<Rightarrow> u32 \<Rightarrow> u32 \<Rightarrow> (u32 \<times> u32) option" where
  "find_frame_loop bits samp_idx min_idx lmin =
     (if samp_idx < BLEN - SAMPLES_PER_SEC * 60 then
        (case xor_frame bits samp_idx lmin of
           None \<Rightarrow> None
         | Some res \<Rightarrow>
             if res < lmin then find_frame_loop bits (samp_idx + 1) samp_idx res
             else find_frame_loop bits (samp_idx + 1) min_idx lmin)
      else Some (min_idx, lmin))"
  by pat_completeness auto
termination
proof -
  have dec: "unat lim - unat (i + 1) < unat lim - unat i" if "i < lim" for i lim :: u32
  proof -
    from that have lt: "unat i < unat lim"
      by (simp add: word_less_nat_alt)
    have "unat lim < 2 ^ LENGTH(32)"
      by (rule unsigned_less)
    with lt have "unat i + unat (1 :: u32) < 2 ^ LENGTH(32)"
      by simp
    then have "unat (i + 1) = unat i + 1"
      by (simp add: unat_add_lem [THEN iffD1])
    with lt show ?thesis
      by simp
  qed
  show ?thesis
    by (relation "measure (\<lambda>(bits, samp_idx, min_idx, lmin).
                   unat (BLEN - SAMPLES_PER_SEC * 60) - unat samp_idx)")
       (simp_all add: dec)
qed

declare find_frame_loop.simps [simp del]

definition find_frame :: "u8 list \<Rightarrow> (u32 \<times> u32) option" where
  "find_frame bits = find_frame_loop bits 0 (BLEN + BLEN) (SAMPLES_PER_SEC * 120)"

subsection \<open>The exhaustive variant\<close>

text \<open>
  The same search without the early return of \<open>xor_frame\<close>: every candidate is scored
  on all entries of \<open>frame_const_fields\<close>. It is the reference that the pruned search
  is compared with.
\<close>

fun xor_frame_all_loop :: "u8 list \<Rightarrow> u32 \<Rightarrow> const_field list \<Rightarrow> u32 \<Rightarrow> u32 option" where
  "xor_frame_all_loop bits samp_idx [] sm = Some sm"
| "xor_frame_all_loop bits samp_idx (f # fs) sm =
     (case xor_frame_switch bits samp_idx f sm of
        None \<Rightarrow> None
      | Some sm' \<Rightarrow> xor_frame_all_loop bits samp_idx fs sm')"

definition xor_frame_all :: "u8 list \<Rightarrow> u32 \<Rightarrow> u32 option" where
  "xor_frame_all bits samp_idx = xor_frame_all_loop bits samp_idx frame_const_fields 0"

function find_frame_exhaustive_loop ::
    "u8 list \<Rightarrow> u32 \<Rightarrow> u32 \<Rightarrow> u32 \<Rightarrow> (u32 \<times> u32) option" where
  "find_frame_exhaustive_loop bits samp_idx min_idx lmin =
     (if samp_idx < BLEN - SAMPLES_PER_SEC * 60 then
        (case xor_frame_all bits samp_idx of
           None \<Rightarrow> None
         | Some res \<Rightarrow>
             if res < lmin then find_frame_exhaustive_loop bits (samp_idx + 1) samp_idx res
             else find_frame_exhaustive_loop bits (samp_idx + 1) min_idx lmin)
      else Some (min_idx, lmin))"
  by pat_completeness auto
termination
proof -
  have dec: "unat lim - unat (i + 1) < unat lim - unat i" if "i < lim" for i lim :: u32
  proof -
    from that have lt: "unat i < unat lim"
      by (simp add: word_less_nat_alt)
    have "unat lim < 2 ^ LENGTH(32)"
      by (rule unsigned_less)
    with lt have "unat i + unat (1 :: u32) < 2 ^ LENGTH(32)"
      by simp
    then have "unat (i + 1) = unat i + 1"
      by (simp add: unat_add_lem [THEN iffD1])
    with lt show ?thesis
      by simp
  qed
  show ?thesis
    by (relation "measure (\<lambda>(bits, samp_idx, min_idx, lmin).
                   unat (BLEN - SAMPLES_PER_SEC * 60) - unat samp_idx)")
       (simp_all add: dec)
qed

declare find_frame_exhaustive_loop.simps [simp del]

definition find_frame_exhaustive :: "u8 list \<Rightarrow> (u32 \<times> u32) option" where
  "find_frame_exhaustive bits =
     find_frame_exhaustive_loop bits 0 (BLEN + BLEN) (SAMPLES_PER_SEC * 120)"

section \<open>Field decoding: code tables, decode_field, decode_frame\<close>

record code_t =
  bit_c :: u32
  weight :: u32

definition codes :: "(u32 \<times> u32) list \<Rightarrow> code_t list" where
  "codes = map (\<lambda>(b, w). \<lparr>bit_c = b, weight = w\<rparr>)"

definition minutes_code :: "code_t list" where
  "minutes_code = codes [(1, 40), (2, 20), (3, 10), (5, 8), (6, 4), (7, 2), (8, 1)]"

definition hours_code :: "code_t list" where
  "hours_code = codes [(12, 20), (13, 10), (15, 8), (16, 4), (17, 2), (18, 1)]"

definition day_code :: "code_t list" where
  "day_code = codes [(22, 200), (23, 100), (25, 80), (26, 40), (27, 20), (28, 10),
                     (30, 8), (31, 4), (32, 2), (33, 1)]"

definition year_code :: "code_t list" where
  "year_code = codes [(45, 80), (46, 40), (47, 20), (48, 10), (50, 8), (51, 4),
                      (52, 2), (53, 1)]"

definition lyi_code :: "code_t list" where
  "lyi_code = codes [(55, 1)]"

definition lsw_code :: "code_t list" where
  "lsw_code = codes [(56, 1)]"

definition dst_code :: "code_t list" where
  "dst_code = codes [(57, 2), (58, 1)]"

text \<open>
  \<open>field_t\<close>. The pointer \<open>code\<close> and the count \<open>code_len\<close> are one list: every entry of
  \<open>frame\<close> sets \<open>code_len\<close> to the number of elements of its table.
\<close>

record field_t =
  name_f :: string
  value_f :: u32
  score_f :: u32
  worst_score_f :: u32
  val_width :: u32
  code_f :: "code_t list"

definition frame :: "field_t list" where
  "frame = map (\<lambda>(n, w, c). \<lparr>name_f = n, value_f = 0xffffffff, score_f = 0xffffffff,
                          worst_score_f = 0xffffffff, val_width = w, code_f = c\<rparr>)
     [(''hours'', 2, hours_code), (''minutes'', 2, minutes_code), (''day'', 3, day_code),
      (''year'', 2, year_code), (''lyi'', 1, lyi_code), (''lsw'', 1, lsw_code),
      (''dst'', 2, dst_code)]"

text \<open>
  The loop of \<open>decode_field\<close> over the code table. The result is the triple of the
  returned value, \<open>*score\<close> and \<open>*worst_score\<close>.
\<close>

fun decode_field_loop ::
    "u8 list \<Rightarrow> u32 \<Rightarrow> code_t list \<Rightarrow> u32 \<Rightarrow> u32 \<Rightarrow> u32 \<Rightarrow> (u32 \<times> u32 \<times> u32) option" where
  "decode_field_loop bits frame_idx [] lscore worst_score field_val =
     Some (field_val, lscore, worst_score)"
| "decode_field_loop bits frame_idx (c # cs) lscore worst_score field_val =
     (case decode_sec bits (frame_idx + bit_c c * SAMPLES_PER_SEC) of
        None \<Rightarrow> None
      | Some (res, res_score) \<Rightarrow>
          (let worst_score' = (if res_score > worst_score then res_score else worst_score)
           in if res = 2 then Some (0, DECODE_FAILURE, SAMPLES_PER_SEC)
              else decode_field_loop bits frame_idx cs (lscore + res_score) worst_score'
                     (field_val + weight c * res)))"

definition decode_field :: "u8 list \<Rightarrow> u32 \<Rightarrow> code_t list \<Rightarrow> (u32 \<times> u32 \<times> u32) option" where
  "decode_field bits frame_idx code = decode_field_loop bits frame_idx code 0 0 0"

text \<open>
  \<open>decode_frame\<close> stores each field's result in the global \<open>frame\<close> and returns the
  total score; the model returns the updated fields and the total.
\<close>

fun decode_frame_loop ::
    "u8 list \<Rightarrow> u32 \<Rightarrow> field_t list \<Rightarrow> u32 \<Rightarrow> (field_t list \<times> u32) option" where
  "decode_frame_loop bits frame_idx [] score = Some ([], score)"
| "decode_frame_loop bits frame_idx (f # fs) score =
     (case decode_field bits frame_idx (code_f f) of
        None \<Rightarrow> None
      | Some (res, res_score, worst_score) \<Rightarrow>
          (case decode_frame_loop bits frame_idx fs (score + res_score) of
             None \<Rightarrow> None
           | Some (fs', score') \<Rightarrow>
               Some (f\<lparr>score_f := res_score, worst_score_f := worst_score, value_f := res\<rparr>
                       # fs', score')))"

definition decode_frame :: "u8 list \<Rightarrow> u32 \<Rightarrow> (field_t list \<times> u32) option" where
  "decode_frame bits frame_idx = decode_frame_loop bits frame_idx frame 0"

section \<open>Calendar: daynum_to_month_day\<close>

text \<open>
  The local array \<open>daysums\<close> has 12 entries. An access at an index of 12 or more is
  outside the array, undefined behaviour in C, and \<open>None\<close> here.
\<close>

definition daysums_init :: "u32 list" where
  "daysums_init = [31, 59, 90, 120, 151, 181, 212, 243, 273, 304, 334, 365]"

definition daysums_get :: "u32 list \<Rightarrow> u32 \<Rightarrow> u32 option" where
  "daysums_get daysums i = (if i < 12 then Some (daysums ! unat i) else None)"

definition daysums_incr :: "u32 list \<Rightarrow> u32 \<Rightarrow> u32 list option" where
  "daysums_incr daysums i =
     (if i < 12 then Some (daysums[unat i := daysums ! unat i + 1]) else None)"

text \<open>\<open>for (i = 1; i < 13; i++) daysums[i] += 1;\<close>\<close>

function leap_loop :: "u32 list \<Rightarrow> u32 \<Rightarrow> u32 list option" where
  "leap_loop daysums i =
     (if i < 13 then
        (case daysums_incr daysums i of
           None \<Rightarrow> None
         | Some daysums' \<Rightarrow> leap_loop daysums' (i + 1))
      else Some daysums)"
  by pat_completeness auto
termination
proof -
  have dec: "unat lim - unat (i + 1) < unat lim - unat i" if "i < lim" for i lim :: u32
  proof -
    from that have lt: "unat i < unat lim"
      by (simp add: word_less_nat_alt)
    have "unat lim < 2 ^ LENGTH(32)"
      by (rule unsigned_less)
    with lt have "unat i + unat (1 :: u32) < 2 ^ LENGTH(32)"
      by simp
    then have "unat (i + 1) = unat i + 1"
      by (simp add: unat_add_lem [THEN iffD1])
    with lt show ?thesis
      by simp
  qed
  have dec13: "13 - unat (i + 1) < 13 - unat i" if "i < 13" for i :: u32
    using dec [OF that] by simp
  show ?thesis
    by (relation "measure (\<lambda>(daysums, i). 13 - unat i)") (simp_all add: dec13)
qed

declare leap_loop.simps [simp del]

text \<open>\<open>while (daysums[*month] < daynum) *month += 1;\<close>\<close>

function month_loop :: "u32 list \<Rightarrow> u32 \<Rightarrow> u32 \<Rightarrow> u32 option" where
  "month_loop daysums daynum month =
     (case daysums_get daysums month of
        None \<Rightarrow> None
      | Some s \<Rightarrow> if s < daynum then month_loop daysums daynum (month + 1) else Some month)"
  by pat_completeness auto
termination
proof -
  have dec: "unat lim - unat (i + 1) < unat lim - unat i" if "i < lim" for i lim :: u32
  proof -
    from that have lt: "unat i < unat lim"
      by (simp add: word_less_nat_alt)
    have "unat lim < 2 ^ LENGTH(32)"
      by (rule unsigned_less)
    with lt have "unat i + unat (1 :: u32) < 2 ^ LENGTH(32)"
      by simp
    then have "unat (i + 1) = unat i + 1"
      by (simp add: unat_add_lem [THEN iffD1])
    with lt show ?thesis
      by simp
  qed
  have dec12: "12 - unat (month + 1) < 12 - unat month"
    if "daysums_get daysums month = Some s" for daysums :: "u32 list" and month s :: u32
  proof -
    from that have "month < 12"
      by (simp add: daysums_get_def split: if_splits)
    from dec [OF this] show ?thesis
      by simp
  qed
  show ?thesis
    by (relation "measure (\<lambda>(daysums, daynum, month). 12 - unat month)")
       (simp_all add: dec12)
qed

declare month_loop.simps [simp del]

text \<open>The result is the pair of \<open>*month\<close> and \<open>*day\<close>.\<close>

definition daynum_to_month_day :: "u32 \<Rightarrow> u32 \<Rightarrow> (u32 \<times> u32) option" where
  "daynum_to_month_day daynum is_leap_year =
     (case (if is_leap_year \<noteq> 0 then leap_loop daysums_init 1 else Some daysums_init) of
        None \<Rightarrow> None
      | Some daysums \<Rightarrow>
          (case month_loop daysums daynum 0 of
             None \<Rightarrow> None
           | Some month \<Rightarrow>
               (case (if month > 0 then
                        (case daysums_get daysums (month - 1) of
                           None \<Rightarrow> None | Some s \<Rightarrow> Some (daynum - s))
                      else Some daynum) of
                  None \<Rightarrow> None
                | Some day \<Rightarrow> Some (month + 1, day))))"

section \<open>Reliability summary of main\<close>

text \<open>
  The last \<open>if\<close> chain of \<open>main\<close> on \<open>frame_worst_sec_score\<close>, which prints one of three
  verdicts.
\<close>

datatype verdict = LIKELY_OK | NOT_RELIABLE | PROBABLY_BAD

definition summary_verdict :: "u32 \<Rightarrow> verdict" where
  "summary_verdict frame_worst_sec_score =
     (if frame_worst_sec_score < 7 then LIKELY_OK
      else if frame_worst_sec_score < 10 then NOT_RELIABLE
      else PROBABLY_BAD)"

section \<open>Cumulative error of a candidate offset\<close>

text \<open>
  The error of a candidate offset in the words of the spec: for each entry of
  \<open>frame_const_fields\<close>, the score of the second at \<open>offset + sec * SAMPLES_PER_SEC\<close>
  against the entry's symbol (\<open>xor_zero\<close> for a zero, \<open>xor_mark\<close> for a mark), all
  added up. It is written with the symbol matcher alone, apart from \<open>xor_frame\<close>, and is
  \<open>None\<close> when one of the seconds lies outside the buffer.
\<close>

fun sum_scores :: "u32 option list \<Rightarrow> u32 option" where
  "sum_scores [] = Some 0"
| "sum_scores (None # rs) = None"
| "sum_scores (Some r # rs) = (case sum_scores rs of None \<Rightarrow> None | Some s \<Rightarrow> Some (r + s))"

definition fixed_scores :: "u8 list \<Rightarrow> u32 \<Rightarrow> u32 option list" where
  "fixed_scores bits offset =
     map (\<lambda>f. if type_f f = 0 then xor_zero bits (offset + sec f * SAMPLES_PER_SEC)
              else xor_mark bits (offset + sec f * SAMPLES_PER_SEC))
       frame_const_fields"

definition cumulative_error :: "u8 list \<Rightarrow> u32 \<Rightarrow> u32 option" where
  "cumulative_error bits offset = sum_scores (fixed_scores bits offset)"

section \<open>Sample buffers with a planted frame\<close>

text \<open>
  One second of a mark and of a zero as the templates have them, a frame of 60 seconds
  with marks at seconds 0, 9, 19, 29, 39, 49 and 59 and zeros elsewhere, and the buffer
  \<open>planted k\<close> of 4800 samples: \<open>k\<close> samples 0, the frame, and samples 0 to the end.
\<close>

definition mark_samples :: "u8 list" where
  "mark_samples = replicate 32 0 @ replicate 8 1"

definition zero_samples :: "u8 list" where
  "zero_samples = replicate 8 0 @ replicate 32 1"

definition frame_samples :: "u8 list" where
  "frame_samples =
     concat (map (\<lambda>s. if s \<in> {0, 9, 19, 29, 39, 49, 59} then mark_samples else zero_samples)
       [0..<60])"

definition planted :: "nat \<Rightarrow> u8 list" where
  "planted k = replicate k 0 @ frame_samples @ replicate (2400 - k) 0"

section \<open>daynum_to_month_day with the word after the array\<close>

text \<open>
  With the leap year set, \<open>daynum_to_month_day\<close> writes \<open>daysums[12]\<close>, the word after the
  12 entries, and the checked model above stops there. This second model keeps that word
  as a thirteenth cell of arbitrary content \<open>past\<close>, so that the rest of the call can be
  followed: it is the function where the word after the array is none of the
  function's own variables. An index of 13 or more is \<open>None\<close>.
\<close>

definition cells_get :: "u32 list \<Rightarrow> u32 \<Rightarrow> u32 option" where
  "cells_get cells i = (if i < 13 then Some (cells ! unat i) else None)"

definition cells_incr :: "u32 list \<Rightarrow> u32 \<Rightarrow> u32 list option" where
  "cells_incr cells i = (if i < 13 then Some (cells[unat i := cells ! unat i + 1]) else None)"

function leap_loop_cells :: "u32 list \<Rightarrow> u32 \<Rightarrow> u32 list option" where
  "leap_loop_cells cells i =
     (if i < 13 then
        (case cells_incr cells i of
           None \<Rightarrow> None
         | Some cells' \<Rightarrow> leap_loop_cells cells' (i + 1))
      else Some cells)"
  by pat_completeness auto
termination
proof -
  have dec: "13 - unat (i + 1) < 13 - unat i" if "i < 13" for i :: u32
  proof -
    from that have lt: "unat i < 13"
      by (simp add: word_less_nat_alt)
    then have "unat i + unat (1 :: u32) < 2 ^ LENGTH(32)"
      by simp
    then have "unat (i + 1) = unat i + 1"
      by (simp add: unat_add_lem [THEN iffD1])
    with lt show ?thesis
      by simp
  qed
  show ?thesis
    by (relation "measure (\<lambda>(cells, i). 13 - unat i)") (simp_all add: dec)
qed

declare leap_loop_cells.simps [simp del]

function month_loop_cells :: "u32 list \<Rightarrow> u32 \<Rightarrow> u32 \<Rightarrow> u32 option" where
  "month_loop_cells cells daynum month =
     (case cells_get cells month of
        None \<Rightarrow> None
      | Some s \<Rightarrow>
          if s < daynum then month_loop_cells cells daynum (month + 1) else Some month)"
  by pat_completeness auto
termination
proof -
  have dec: "13 - unat (month + 1) < 13 - unat month"
    if "cells_get cells month = Some s" for cells :: "u32 list" and month s :: u32
  proof -
    from that have "month < 13"
      by (simp add: cells_get_def split: if_splits)
    then have lt: "unat month < 13"
      by (simp add: word_less_nat_alt)
    then have "unat month + unat (1 :: u32) < 2 ^ LENGTH(32)"
      by simp
    then have "unat (month + 1) = unat month + 1"
      by (simp add: unat_add_lem [THEN iffD1])
    with lt show ?thesis
      by simp
  qed
  show ?thesis
    by (relation "measure (\<lambda>(cells, daynum, month). 13 - unat month)") (simp_all add: dec)
qed

declare month_loop_cells.simps [simp del]

definition daynum_to_month_day_cells :: "u32 \<Rightarrow> u32 \<Rightarrow> u32 \<Rightarrow> (u32 \<times> u32) option" where
  "daynum_to_month_day_cells past daynum is_leap_year =
     (case (if is_leap_year \<noteq> 0 then leap_loop_cells (daysums_init @ [past]) 1
            else Some (daysums_init @ [past])) of
        None \<Rightarrow> None
      | Some cells \<Rightarrow>
          (case month_loop_cells cells daynum 0 of
             None \<Rightarrow> None
           | Some month \<Rightarrow>
               (case (if month > 0 then
                        (case cells_get cells (month - 1) of
                           None \<Rightarrow> None | Some s \<Rightarrow> Some (daynum - s))
                      else Some daynum) of
                  None \<Rightarrow> None
                | Some day \<Rightarrow> Some (month + 1, day))))"

section \<open>Error counts of a run of samples\<close>

text \<open>
  The number that one loop of \<open>xor_sec\<close> adds to its sum over a run of samples
  \<open>bs\<close>: the \<open>uint32_t\<close> sum of \<open>ideal ^ b\<close>.
\<close>

definition mism :: "u32 \<Rightarrow> u8 list \<Rightarrow> u32" where
  "mism ideal bs = sum_list (map (\<lambda>b. ideal XOR ucast b) bs)"

section \<open>Facts about the symbol matcher\<close>

lemma unat_inc: "unat (i + 1) = unat i + 1" if "i < lim" for i lim :: u32
proof -
  from that have "unat i < unat lim"
    by (simp add: word_less_nat_alt)
  moreover have "unat lim < 2 ^ LENGTH(32)"
    by (rule unsigned_less)
  ultimately have "unat i + unat (1 :: u32) < 2 ^ LENGTH(32)"
    by simp
  then show ?thesis
    by (simp add: unat_add_lem [THEN iffD1])
qed

lemma mism_Nil [simp]: "mism ideal [] = 0"
  by (simp add: mism_def)

lemma mism_Cons [simp]: "mism ideal (b # bs) = (ideal XOR ucast b) + mism ideal bs"
  by (simp add: mism_def)

lemma take_drop_step:
  assumes "k < length xs" and "0 < n"
  shows "take n (drop k xs) = xs ! k # take (n - 1) (drop (Suc k) xs)"
proof -
  from assms(1) have "drop k xs = xs ! k # drop (Suc k) xs"
    by (simp add: Cons_nth_drop_Suc)
  with assms(2) show ?thesis
    by (cases n) simp_all
qed

lemma xor_sec_loop_eq:
  "unat lim \<le> length bits \<Longrightarrow>
   xor_sec_loop bits ideal i lim sm =
     Some (sm + mism ideal (take (unat lim - unat i) (drop (unat i) bits)))"
proof (induction bits ideal i lim sm rule: xor_sec_loop.induct)
  case (1 bits ideal i lim sm)
  show ?case
  proof (cases "i < lim")
    case True
    then have lt: "unat i < unat lim"
      by (simp add: word_less_nat_alt)
    with "1.prems" have inb: "unat i < length bits"
      by simp
    then have r: "rd bits i = Some (bits ! unat i)"
      by (simp add: rd_def)
    have inc: "unat (i + 1) = Suc (unat i)"
      using unat_inc [OF True] by simp
    have "xor_sec_loop bits ideal i lim sm =
        xor_sec_loop bits ideal (i + 1) lim (sm + (ideal XOR ucast (bits ! unat i)))"
      using True r by (subst xor_sec_loop.simps) simp
    also have "\<dots> = Some (sm + (ideal XOR ucast (bits ! unat i)) +
        mism ideal (take (unat lim - unat (i + 1)) (drop (unat (i + 1)) bits)))"
      using "1.IH" [OF True r] "1.prems" by simp
    also have "take (unat lim - unat i) (drop (unat i) bits) =
        bits ! unat i # take (unat lim - unat (i + 1)) (drop (unat (i + 1)) bits)"
      using take_drop_step [OF inb, of "unat lim - unat i"] lt inc by simp
    then have "sm + (ideal XOR ucast (bits ! unat i)) +
        mism ideal (take (unat lim - unat (i + 1)) (drop (unat (i + 1)) bits)) =
        sm + mism ideal (take (unat lim - unat i) (drop (unat i) bits))"
      by (simp add: add.assoc)
    finally show ?thesis .
  next
    case False
    then have "unat lim - unat i = 0"
      by (simp add: word_less_nat_alt)
    with False show ?thesis
      by (subst xor_sec_loop.simps) simp
  qed
qed

lemma mism_append: "mism ideal (xs @ ys) = mism ideal xs + mism ideal ys"
  by (simp add: mism_def)

lemma unat_add_le: "unat (a + b) \<le> unat a + unat b" for a b :: u32
  by (simp add: unat_word_ariths)

lemma unat_ucast_u8_le: "unat (ucast (c :: u8) :: u32) \<le> 255"
proof -
  have "unat (ucast c :: u32) = take_bit 32 (unat c)"
    by (simp add: unsigned_ucast_eq)
  also have "\<dots> \<le> unat c"
    by (rule take_bit_nat_less_eq_self)
  also have "unat c < 2 ^ LENGTH(8)"
    by (rule unsigned_less)
  finally show ?thesis
    by simp
qed

lemma unat_xor_ucast_le:
  assumes "ideal = 0 \<or> ideal = 1"
  shows "unat ((ideal :: u32) XOR ucast (b :: u8)) \<le> 255"
proof -
  from assms have "ideal XOR ucast b = ucast ((ucast ideal :: u8) XOR b)"
    by (metis (no_types, lifting) unsigned_0 unsigned_1 unsigned_xor_eq)
  then show ?thesis
    by (simp add: unat_ucast_u8_le)
qed

lemma u8_le_1: "b = 0 \<or> b = 1" if "b \<le> 1" for b :: u8
  using that order_antisym_conv word_le_sub1 by auto

lemma unat_xor_ucast_bin:
  assumes "ideal = 0 \<or> ideal = 1" and "b \<le> 1"
  shows "unat ((ideal :: u32) XOR ucast (b :: u8)) \<le> 1"
  using assms(1) u8_le_1 [OF assms(2)] by auto

lemma mism_le:
  assumes "ideal = 0 \<or> ideal = 1"
  shows "unat (mism ideal bs) \<le> 255 * length bs"
proof (induction bs)
  case Nil
  show ?case by simp
next
  case (Cons b bs)
  have "unat (mism ideal (b # bs)) \<le> unat (ideal XOR ucast b) + unat (mism ideal bs)"
    by (simp add: unat_add_le)
  with Cons unat_xor_ucast_le [OF assms, of b] show ?case
    by simp
qed

lemma mism_le_bin:
  assumes "ideal = 0 \<or> ideal = 1" and "\<forall>b\<in>set bs. b \<le> 1"
  shows "unat (mism ideal bs) \<le> length bs"
  using assms(2)
proof (induction bs)
  case Nil
  show ?case by simp
next
  case (Cons b bs)
  have "unat (mism ideal (b # bs)) \<le> unat (ideal XOR ucast b) + unat (mism ideal bs)"
    by (simp add: unat_add_le)
  with Cons unat_xor_ucast_bin [OF assms(1), of b] show ?case
    by fastforce
qed

lemma mism_replicate: "mism ideal (replicate n v) = of_nat n * (ideal XOR ucast v)"
  by (induction n) (simp_all add: algebra_simps)

lemma take_drop_const:
  assumes "k + n \<le> length xs" and "\<forall>j<n. xs ! (k + j) = v"
  shows "take n (drop k xs) = replicate n v"
  using assms by (auto simp: list_eq_iff_nth_eq)

lemma xor_sec_eq:
  assumes "unat samp_idx + unat zero_len + unat one_len \<le> length bits"
    and "length bits < 2 ^ 32"
  shows "xor_sec bits samp_idx zero_len one_len =
    Some (mism 0 (take (unat zero_len) (drop (unat samp_idx) bits)) +
          mism 1 (take (unat one_len) (drop (unat samp_idx + unat zero_len) bits)))"
proof -
  from assms have a: "unat (samp_idx + zero_len) = unat samp_idx + unat zero_len"
    by (simp add: unat_add_lem [THEN iffD1])
  with assms have b: "unat (samp_idx + zero_len + one_len) =
      unat samp_idx + unat zero_len + unat one_len"
    by (simp add: unat_add_lem [THEN iffD1])
  from assms a b show ?thesis
    by (simp add: xor_sec_def xor_sec_loop_eq)
qed

lemma xor_sec_Some:
  assumes "unat samp_idx + unat zero_len + unat one_len \<le> length bits"
  shows "\<exists>r. xor_sec bits samp_idx zero_len one_len = Some r"
proof -
  have "unat (samp_idx + zero_len) \<le> unat samp_idx + unat zero_len"
    by (rule unat_add_le)
  moreover have "unat (samp_idx + zero_len + one_len) \<le>
      unat (samp_idx + zero_len) + unat one_len"
    by (rule unat_add_le)
  ultimately show ?thesis
    using assms by (simp add: xor_sec_def xor_sec_loop_eq)
qed

lemma sample_consts:
  "800 div SAMP_PERIOD = 32" "200 div SAMP_PERIOD = 8" "500 div SAMP_PERIOD = 20"
  "SAMPLES_PER_SEC = 40" "BLEN = 4800"
  by (simp_all add: SAMP_PERIOD_def SAMPLES_PER_SEC_def BLEN_def BUF_LEN_IN_SEC_def)

lemma xor_zero_eq:
  assumes "unat samp_idx + 40 \<le> length bits" and "length bits < 2 ^ 32"
  shows "xor_zero bits samp_idx =
    Some (mism 0 (take 8 (drop (unat samp_idx) bits)) +
          mism 1 (take 32 (drop (unat samp_idx + 8) bits)))"
  using assms by (simp add: xor_zero_def sample_consts xor_sec_eq)

lemma xor_one_eq:
  assumes "unat samp_idx + 40 \<le> length bits" and "length bits < 2 ^ 32"
  shows "xor_one bits samp_idx =
    Some (mism 0 (take 20 (drop (unat samp_idx) bits)) +
          mism 1 (take 20 (drop (unat samp_idx + 20) bits)))"
  using assms by (simp add: xor_one_def sample_consts xor_sec_eq)

lemma xor_mark_eq:
  assumes "unat samp_idx + 40 \<le> length bits" and "length bits < 2 ^ 32"
  shows "xor_mark bits samp_idx =
    Some (mism 0 (take 32 (drop (unat samp_idx) bits)) +
          mism 1 (take 8 (drop (unat samp_idx + 32) bits)))"
  using assms by (simp add: xor_mark_def sample_consts xor_sec_eq)

lemma xor_templates_Some:
  assumes "unat samp_idx + unat SAMPLES_PER_SEC \<le> length bits"
  shows "\<exists>z o' m. xor_zero bits samp_idx = Some z \<and> xor_one bits samp_idx = Some o' \<and>
    xor_mark bits samp_idx = Some m"
proof -
  from assms have inb: "unat samp_idx + 40 \<le> length bits"
    by (simp add: sample_consts)
  then have "\<exists>z. xor_zero bits samp_idx = Some z"
    unfolding xor_zero_def sample_consts by (intro xor_sec_Some) simp
  moreover from inb have "\<exists>z. xor_one bits samp_idx = Some z"
    unfolding xor_one_def sample_consts by (intro xor_sec_Some) simp
  moreover from inb have "\<exists>z. xor_mark bits samp_idx = Some z"
    unfolding xor_mark_def sample_consts by (intro xor_sec_Some) simp
  ultimately show ?thesis
    by blast
qed

lemma decode_sec_of_scores:
  assumes "xor_zero bits samp_idx = Some z" and "xor_one bits samp_idx = Some o'"
    and "xor_mark bits samp_idx = Some m"
  shows "decode_sec bits samp_idx =
    Some (if z \<le> o' \<and> z \<le> m then (0, z) else if o' \<le> m then (1, o') else (2, m))"
  using assms by (auto simp: decode_sec_def)

lemma decode_sec_sym:
  assumes "decode_sec bits samp_idx = Some (r, sc)"
  shows "r = 0 \<or> r = 1 \<or> r = 2"
  using assms by (auto simp: decode_sec_def Let_def split: option.splits if_splits)

section \<open>Claims about decode_sec\<close>

text \<open>
  C1, as the code has it. For every buffer and every start sample with one whole second
  inside the buffer, \<open>decode_sec\<close> evaluates the three template scores and returns a
  symbol of minimum score together with that score. On an exact tie ZERO (0) is
  preferred over an equal ONE (1), and both ZERO and ONE are preferred over an equal
  MARKER (2): ONE is returned only when its score is strictly below that of ZERO, and
  MARKER only when its score is strictly below both others.
\<close>

theorem decode_sec_min_score:
  assumes "unat samp_idx + unat SAMPLES_PER_SEC \<le> length bits"
  shows "\<exists>z o' m t sc.
    xor_zero bits samp_idx = Some z \<and> xor_one bits samp_idx = Some o' \<and>
    xor_mark bits samp_idx = Some m \<and> decode_sec bits samp_idx = Some (t, sc) \<and>
    sc = min z (min o' m) \<and>
    (t = 0 \<longleftrightarrow> z \<le> o' \<and> z \<le> m) \<and>
    (t = 1 \<longleftrightarrow> o' < z \<and> o' \<le> m) \<and>
    (t = 2 \<longleftrightarrow> m < z \<and> m < o')"
proof -
  from xor_templates_Some [OF assms] obtain z o' m where
    s: "xor_zero bits samp_idx = Some z" "xor_one bits samp_idx = Some o'"
       "xor_mark bits samp_idx = Some m"
    by blast
  let ?r = "if z \<le> o' \<and> z \<le> m then (0 :: u32, z) else if o' \<le> m then (1, o') else (2, m)"
  have d: "decode_sec bits samp_idx = Some (fst ?r, snd ?r)"
    using decode_sec_of_scores [OF s] by simp
  have "snd ?r = min z (min o' m)"
    by (auto simp: min_def)
  moreover have "fst ?r = 0 \<longleftrightarrow> z \<le> o' \<and> z \<le> m"
    by auto
  moreover have "fst ?r = 1 \<longleftrightarrow> o' < z \<and> o' \<le> m"
    by auto
  moreover have "fst ?r = 2 \<longleftrightarrow> m < z \<and> m < o'"
    by auto
  ultimately show ?thesis
    using s d by blast
qed

theorem decode_sec_min_score_witness:
  "unat (0 :: u32) + unat SAMPLES_PER_SEC \<le> length (replicate 4800 (0 :: u8)) \<and>
   (\<exists>z o' m t sc.
      xor_zero (replicate 4800 0) 0 = Some z \<and> xor_one (replicate 4800 0) 0 = Some o' \<and>
      xor_mark (replicate 4800 0) 0 = Some m \<and>
      decode_sec (replicate 4800 0) 0 = Some (t, sc) \<and>
      sc = min z (min o' m) \<and>
      (t = 0 \<longleftrightarrow> z \<le> o' \<and> z \<le> m) \<and>
      (t = 1 \<longleftrightarrow> o' < z \<and> o' \<le> m) \<and>
      (t = 2 \<longleftrightarrow> m < z \<and> m < o'))"
proof -
  have h: "unat (0 :: u32) + unat SAMPLES_PER_SEC \<le> length (replicate 4800 (0 :: u8))"
    by (simp add: sample_consts)
  from h decode_sec_min_score [OF h] show ?thesis
    by blast
qed

lemma tie_buffer_scores:
  "xor_zero (replicate 14 0 @ replicate 4786 1) 0 = Some 6"
  "xor_one (replicate 14 0 @ replicate 4786 1) 0 = Some 6"
  "xor_mark (replicate 14 0 @ replicate 4786 1) 0 = Some 18"
  by (simp_all add: xor_zero_eq xor_one_eq xor_mark_eq mism_append mism_replicate)

text \<open>
  C1 as stated fails where ZERO and ONE tie. In the second made of 14 samples 0 followed
  by samples 1, the ZERO and the ONE template both score 6 and the MARKER template
  scores 18; \<open>decode_sec\<close> returns ZERO (0), not ONE.
\<close>

theorem decode_sec_tie_counterexample:
  "xor_zero (replicate 14 0 @ replicate 4786 1) 0 = Some 6 \<and>
   xor_one (replicate 14 0 @ replicate 4786 1) 0 = Some 6 \<and>
   xor_mark (replicate 14 0 @ replicate 4786 1) 0 = Some 18 \<and>
   decode_sec (replicate 14 0 @ replicate 4786 1) 0 = Some (0, 6)"
  using decode_sec_of_scores [OF tie_buffer_scores] tie_buffer_scores by simp

lemma xor_sec_const:
  assumes "unat samp_idx + unat zero_len + unat one_len \<le> length bits"
    and "length bits < 2 ^ 32"
    and "\<forall>k < unat zero_len + unat one_len. bits ! (unat samp_idx + k) = v"
  shows "xor_sec bits samp_idx zero_len one_len =
    Some (zero_len * ucast v + one_len * (1 XOR ucast v))"
proof -
  have "take (unat zero_len) (drop (unat samp_idx) bits) = replicate (unat zero_len) v"
    using assms by (intro take_drop_const) simp_all
  moreover have "take (unat one_len) (drop (unat samp_idx + unat zero_len) bits) =
      replicate (unat one_len) v"
    using assms by (intro take_drop_const) (simp_all add: add.assoc)
  ultimately show ?thesis
    using assms by (simp add: xor_sec_eq mism_replicate)
qed

lemma xor_templates_const:
  assumes "unat samp_idx + unat SAMPLES_PER_SEC \<le> length bits"
    and "length bits < 2 ^ 32"
    and "\<forall>k < unat SAMPLES_PER_SEC. bits ! (unat samp_idx + k) = v"
  shows "xor_zero bits samp_idx = Some (8 * ucast v + 32 * (1 XOR ucast v))"
    and "xor_one bits samp_idx = Some (20 * ucast v + 20 * (1 XOR ucast v))"
    and "xor_mark bits samp_idx = Some (32 * ucast v + 8 * (1 XOR ucast v))"
  using assms
  by (simp_all add: xor_zero_def xor_one_def xor_mark_def sample_consts xor_sec_const)

lemma decode_sec_zero_span:
  assumes "unat samp_idx + unat SAMPLES_PER_SEC \<le> length bits"
    and "length bits < 2 ^ 32"
    and "\<forall>k < unat SAMPLES_PER_SEC. bits ! (unat samp_idx + k) = 0"
  shows "xor_zero bits samp_idx = Some 32 \<and> xor_one bits samp_idx = Some 20 \<and>
    xor_mark bits samp_idx = Some 8 \<and> decode_sec bits samp_idx = Some (2, 8)"
proof -
  note s = xor_templates_const [OF assms]
  from decode_sec_of_scores [OF s] s show ?thesis
    by simp
qed

lemma decode_sec_one_span:
  assumes "unat samp_idx + unat SAMPLES_PER_SEC \<le> length bits"
    and "length bits < 2 ^ 32"
    and "\<forall>k < unat SAMPLES_PER_SEC. bits ! (unat samp_idx + k) = 1"
  shows "decode_sec bits samp_idx = Some (0, 8)"
proof -
  note s = xor_templates_const [OF assms]
  from decode_sec_of_scores [OF s] show ?thesis
    by simp
qed

text \<open>
  C2, as the code has it. For a one-second span inside the buffer whose samples are all
  0, the ZERO template scores 32 (its high sub-span, 80 percent of the second), the ONE
  template scores 20 and the MARKER template scores 8 (its high sub-span, 20 percent of
  the second). The minimum is that of MARKER, so \<open>decode_sec\<close> returns MARKER (2) with
  score 8.
\<close>

theorem decode_sec_all_zero:
  assumes "unat samp_idx + unat SAMPLES_PER_SEC \<le> length bits"
    and "length bits < 2 ^ 32"
    and "\<forall>k < unat SAMPLES_PER_SEC. bits ! (unat samp_idx + k) = 0"
  shows "xor_zero bits samp_idx = Some 32 \<and> xor_one bits samp_idx = Some 20 \<and>
    xor_mark bits samp_idx = Some 8 \<and> decode_sec bits samp_idx = Some (2, 8)"
proof -
  from xor_templates_const [OF assms] have
    s: "xor_zero bits samp_idx = Some 32" "xor_one bits samp_idx = Some 20"
       "xor_mark bits samp_idx = Some 8"
    by simp_all
  have "\<not> (32 :: u32) \<le> 20" "\<not> (20 :: u32) \<le> 8"
    by simp_all
  with decode_sec_of_scores [OF s] s show ?thesis
    by simp
qed

theorem decode_sec_all_zero_witness:
  "xor_zero (replicate 40 1 @ replicate 4760 0) 40 = Some 32 \<and>
   xor_one (replicate 40 1 @ replicate 4760 0) 40 = Some 20 \<and>
   xor_mark (replicate 40 1 @ replicate 4760 0) 40 = Some 8 \<and>
   decode_sec (replicate 40 1 @ replicate 4760 0) 40 = Some (2, 8)"
  using decode_sec_all_zero [of 40 "replicate 40 1 @ replicate 4760 0"]
  by (simp add: sample_consts nth_append)

text \<open>
  C2 as stated fails on the buffer of 4800 samples 0: \<open>decode_sec\<close> at sample 0 returns
  MARKER with score 8, not ZERO with score 32.
\<close>

theorem decode_sec_all_zero_counterexample:
  "decode_sec (replicate 4800 0) 0 = Some (2, 8) \<and>
   decode_sec (replicate 4800 0) 0 \<noteq> Some (0, 32)"
  using decode_sec_zero_span [of 0 "replicate 4800 0"] by (simp add: sample_consts)

section \<open>Facts about the frame search\<close>

lemma search_consts:
  "BLEN - SAMPLES_PER_SEC * 60 = 2400" "BLEN + BLEN = 9600" "SAMPLES_PER_SEC * 120 = 4800"
  by (simp_all add: sample_consts)

lemma template_bounds:
  assumes "unat samp_idx + 40 \<le> length bits" and "length bits < 2 ^ 32"
  shows "\<exists>r. xor_zero bits samp_idx = Some r \<and> unat r \<le> 10200 \<and>
           ((\<forall>b\<in>set bits. b \<le> 1) \<longrightarrow> unat r \<le> 40)"
    and "\<exists>r. xor_mark bits samp_idx = Some r \<and> unat r \<le> 10200 \<and>
           ((\<forall>b\<in>set bits. b \<le> 1) \<longrightarrow> unat r \<le> 40)"
proof -
  have gen: "unat (mism 0 (take n (drop k bits)) + mism 1 (take n' (drop k' bits))) \<le> 10200 \<and>
      ((\<forall>b\<in>set bits. b \<le> 1) \<longrightarrow>
        unat (mism 0 (take n (drop k bits)) + mism 1 (take n' (drop k' bits))) \<le> 40)"
    if "n + n' = 40" for n n' k k'
  proof -
    define lo where "lo = take n (drop k bits)"
    define hi where "hi = take n' (drop k' bits)"
    have len: "length lo \<le> n" "length hi \<le> n'"
      by (simp_all add: lo_def hi_def)
    have sub: "set lo \<subseteq> set bits" "set hi \<subseteq> set bits"
      by (auto simp: lo_def hi_def dest!: in_set_takeD in_set_dropD)
    have le: "unat (mism 0 lo + mism 1 hi) \<le> unat (mism 0 lo) + unat (mism 1 hi)"
      by (rule unat_add_le)
    have "unat (mism 0 lo) \<le> 255 * length lo"
      by (rule mism_le) simp
    moreover have "unat (mism 1 hi) \<le> 255 * length hi"
      by (rule mism_le) simp
    ultimately have one: "unat (mism 0 lo + mism 1 hi) \<le> 10200"
      using le len that by linarith
    have two: "unat (mism 0 lo + mism 1 hi) \<le> 40" if bin: "\<forall>b\<in>set bits. b \<le> 1"
    proof -
      from bin sub have "\<forall>b\<in>set lo. b \<le> 1" "\<forall>b\<in>set hi. b \<le> 1"
        by auto
      then have "unat (mism 0 lo) \<le> length lo" "unat (mism 1 hi) \<le> length hi"
        by (auto intro!: mism_le_bin)
      with le len \<open>n + n' = 40\<close> show ?thesis
        by linarith
    qed
    from one two show ?thesis
      unfolding lo_def hi_def by blast
  qed
  show "\<exists>r. xor_zero bits samp_idx = Some r \<and> unat r \<le> 10200 \<and>
           ((\<forall>b\<in>set bits. b \<le> 1) \<longrightarrow> unat r \<le> 40)"
    using gen [of 8 32 "unat samp_idx" "unat samp_idx + 8"] assms
    by (simp add: xor_zero_eq)
  show "\<exists>r. xor_mark bits samp_idx = Some r \<and> unat r \<le> 10200 \<and>
           ((\<forall>b\<in>set bits. b \<le> 1) \<longrightarrow> unat r \<le> 40)"
    using gen [of 32 8 "unat samp_idx" "unat samp_idx + 32"] assms
    by (simp add: xor_mark_eq)
qed

lemma unat_sec_pos:
  assumes "unat samp_idx \<le> 2400" and "unat s \<le> 59"
  shows "unat (samp_idx + s * SAMPLES_PER_SEC) = unat samp_idx + unat s * 40"
proof -
  from assms(2) have "unat s * unat (40 :: u32) < 2 ^ LENGTH(32)"
    by simp
  then have m: "unat (s * 40) = unat s * 40"
    by (simp add: unat_mult_lem [THEN iffD1])
  with assms have "unat samp_idx + unat (s * 40) < 2 ^ LENGTH(32)"
    by simp
  then have "unat (samp_idx + s * 40) = unat samp_idx + unat (s * 40)"
    by (simp add: unat_add_lem [THEN iffD1])
  with m show ?thesis
    by (simp add: sample_consts)
qed

lemma xor_frame_switch_Some:
  assumes "length bits = 4800" and "unat samp_idx \<le> 2400" and "unat (sec f) \<le> 59"
  shows "\<exists>res. xor_frame_switch bits samp_idx f sm = Some (sm + res) \<and> unat res \<le> 10200 \<and>
           ((\<forall>b\<in>set bits. b \<le> 1) \<longrightarrow> unat res \<le> 40)"
proof -
  let ?p = "samp_idx + sec f * SAMPLES_PER_SEC"
  have "unat ?p + 40 \<le> length bits" "length bits < 2 ^ 32"
    using assms by (simp_all add: unat_sec_pos)
  note tb = template_bounds [OF this]
  show ?thesis
  proof (cases "type_f f = 0")
    case True
    with tb(1) show ?thesis
      by (auto simp: xor_frame_switch_def)
  next
    case False
    show ?thesis
    proof (cases "type_f f = 2")
      case True
      with tb(2) show ?thesis
        by (auto simp: xor_frame_switch_def)
    next
      case False
      with \<open>type_f f \<noteq> 0\<close> have "xor_frame_switch bits samp_idx f sm = Some (sm + 0)"
        by (simp add: xor_frame_switch_def)
      then show ?thesis
        by (intro exI [of _ 0]) simp
    qed
  qed
qed

lemma xor_frame_all_loop_Some:
  assumes "length bits = 4800" and "unat samp_idx \<le> 2400"
    and "\<forall>f\<in>set fs. unat (sec f) \<le> 59"
    and "unat sm + 10200 * length fs < 2 ^ 32"
  shows "\<exists>t. xor_frame_all_loop bits samp_idx fs sm = Some t \<and> unat sm \<le> unat t \<and>
           unat t \<le> unat sm + 10200 * length fs \<and>
           ((\<forall>b\<in>set bits. b \<le> 1) \<longrightarrow> unat t \<le> unat sm + 40 * length fs)"
  using assms(3,4)
proof (induction fs arbitrary: sm)
  case Nil
  show ?case by simp
next
  case (Cons f fs)
  from Cons.prems have "unat (sec f) \<le> 59"
    by simp
  from xor_frame_switch_Some [OF assms(1,2) this, of sm] obtain res where
    sw: "xor_frame_switch bits samp_idx f sm = Some (sm + res)" and
    r1: "unat res \<le> 10200" and r2: "(\<forall>b\<in>set bits. b \<le> 1) \<longrightarrow> unat res \<le> 40"
    by blast
  from Cons.prems(2) r1 have "unat sm + unat res < 2 ^ LENGTH(32)"
    by simp
  then have u: "unat (sm + res) = unat sm + unat res"
    by (simp add: unat_add_lem [THEN iffD1])
  from Cons.prems r1 u have "\<forall>f\<in>set fs. unat (sec f) \<le> 59"
    "unat (sm + res) + 10200 * length fs < 2 ^ 32"
    by simp_all
  from Cons.IH [OF this] obtain t where
    t: "xor_frame_all_loop bits samp_idx fs (sm + res) = Some t"
       "unat (sm + res) \<le> unat t" "unat t \<le> unat (sm + res) + 10200 * length fs"
       "(\<forall>b\<in>set bits. b \<le> 1) \<longrightarrow> unat t \<le> unat (sm + res) + 40 * length fs"
    by blast
  from sw t(1) have "xor_frame_all_loop bits samp_idx (f # fs) sm = Some t"
    by simp
  moreover from t(2) u have "unat sm \<le> unat t"
    by simp
  moreover from t(3) u r1 have "unat t \<le> unat sm + 10200 * length (f # fs)"
    by simp
  moreover from t(4) u r2 have
    "(\<forall>b\<in>set bits. b \<le> 1) \<longrightarrow> unat t \<le> unat sm + 40 * length (f # fs)"
    by auto
  ultimately show ?case
    by blast
qed

lemma xor_frame_loop_pruned:
  assumes "length bits = 4800" and "unat samp_idx \<le> 2400"
    and "\<forall>f\<in>set fs. unat (sec f) \<le> 59"
    and "unat sm + 10200 * length fs < 2 ^ 32"
    and "xor_frame_all_loop bits samp_idx fs sm = Some t"
  shows "\<exists>r. xor_frame_loop bits samp_idx min_val fs sm = Some r \<and>
           (if t \<le> min_val then r = t else min_val < r)"
  using assms(3,4,5)
proof (induction fs arbitrary: sm)
  case Nil
  then show ?case by auto
next
  case (Cons f fs)
  from Cons.prems have "unat (sec f) \<le> 59"
    by simp
  from xor_frame_switch_Some [OF assms(1,2) this, of sm] obtain res where
    sw: "xor_frame_switch bits samp_idx f sm = Some (sm + res)" and
    r1: "unat res \<le> 10200"
    by blast
  from Cons.prems(2) r1 have "unat sm + unat res < 2 ^ LENGTH(32)"
    by simp
  then have u: "unat (sm + res) = unat sm + unat res"
    by (simp add: unat_add_lem [THEN iffD1])
  from Cons.prems r1 u have p: "\<forall>f\<in>set fs. unat (sec f) \<le> 59"
    "unat (sm + res) + 10200 * length fs < 2 ^ 32"
    by simp_all
  from Cons.prems(3) sw have t: "xor_frame_all_loop bits samp_idx fs (sm + res) = Some t"
    by simp
  from xor_frame_all_loop_Some [OF assms(1,2) p] t have mono: "sm + res \<le> t"
    by (auto simp: word_le_nat_alt)
  show ?case
  proof (cases "min_val < sm + res")
    case True
    with mono have "\<not> t \<le> min_val"
      by auto
    with True sw show ?thesis
      by simp
  next
    case False
    with sw Cons.IH [OF p t] show ?thesis
      by simp
  qed
qed

lemma frame_const_fields_sec: "\<forall>f\<in>set frame_const_fields. unat (sec f) \<le> 59"
  by (simp add: frame_const_fields_def)

lemma frame_const_fields_length: "length frame_const_fields = 18"
  by (simp add: frame_const_fields_def)

lemma xor_frame_all_Some:
  assumes "length bits = 4800" and "unat samp_idx \<le> 2400"
  shows "\<exists>t. xor_frame_all bits samp_idx = Some t \<and> unat t \<le> 183600 \<and>
           ((\<forall>b\<in>set bits. b \<le> 1) \<longrightarrow> unat t \<le> 720)"
  using xor_frame_all_loop_Some [OF assms frame_const_fields_sec, of 0]
  by (simp add: xor_frame_all_def frame_const_fields_length)

lemma xor_frame_pruned:
  assumes "length bits = 4800" and "unat samp_idx \<le> 2400"
    and "xor_frame_all bits samp_idx = Some t"
  shows "\<exists>r. xor_frame bits samp_idx min_val = Some r \<and>
           (if t \<le> min_val then r = t else min_val < r)"
  using xor_frame_loop_pruned [OF assms(1,2) frame_const_fields_sec, of 0 t min_val] assms(3)
  by (simp add: xor_frame_all_def xor_frame_def frame_const_fields_length)

lemma find_frame_loop_eq:
  assumes "length bits = 4800"
  shows "find_frame_loop bits samp_idx min_idx lmin =
    find_frame_exhaustive_loop bits samp_idx min_idx lmin"
  using assms
proof (induction bits samp_idx min_idx lmin rule: find_frame_loop.induct)
  case (1 bits samp_idx min_idx lmin)
  note len = "1.prems"
  show ?case
  proof (cases "samp_idx < BLEN - SAMPLES_PER_SEC * 60")
    case True
    then have inr: "unat samp_idx \<le> 2400"
      by (simp add: search_consts word_less_nat_alt)
    from xor_frame_all_Some [OF len inr] obtain t where
      t: "xor_frame_all bits samp_idx = Some t"
      by blast
    from xor_frame_pruned [OF len inr t, of lmin] obtain r where
      r: "xor_frame bits samp_idx lmin = Some r" and
      rt: "if t \<le> lmin then r = t else lmin < r"
      by blast
    show ?thesis
    proof (cases "r < lmin")
      case less: True
      with rt have "r = t"
        by (auto split: if_splits)
      with less True t r "1.IH"(1) [OF True r less len] show ?thesis
        by (subst find_frame_loop.simps, subst find_frame_exhaustive_loop.simps) simp
    next
      case nless: False
      with rt have "\<not> t < lmin"
        by (auto split: if_splits)
      with nless True t r "1.IH"(2) [OF True r nless len] show ?thesis
        by (subst find_frame_loop.simps, subst find_frame_exhaustive_loop.simps) simp
    qed
  next
    case False
    then show ?thesis
      by (subst find_frame_loop.simps, subst find_frame_exhaustive_loop.simps) simp
  qed
qed

lemma word_inc_le_iff: "i + 1 \<le> c \<longleftrightarrow> i < c" if "i < lim" for i c lim :: u32
  using unat_inc [OF that] by (auto simp: word_le_nat_alt word_less_nat_alt)

lemma find_frame_exhaustive_loop_spec:
  assumes "length bits = 4800"
  shows "\<exists>mi' lm'. find_frame_exhaustive_loop bits samp_idx min_idx lmin = Some (mi', lm') \<and>
    lm' \<le> lmin \<and>
    (\<forall>c. samp_idx \<le> c \<and> c < 2400 \<longrightarrow> (\<exists>t. xor_frame_all bits c = Some t \<and> lm' \<le> t)) \<and>
    (mi' = min_idx \<and> lm' = lmin \<or>
     samp_idx \<le> mi' \<and> mi' < 2400 \<and> lm' < lmin \<and> xor_frame_all bits mi' = Some lm' \<and>
     (\<forall>c. samp_idx \<le> c \<and> c < mi' \<longrightarrow> (\<exists>t. xor_frame_all bits c = Some t \<and> lm' < t)))"
  using assms
proof (induction bits samp_idx min_idx lmin rule: find_frame_exhaustive_loop.induct)
  case (1 bits samp_idx min_idx lmin)
  note len = "1.prems"
  show ?case
  proof (cases "samp_idx < BLEN - SAMPLES_PER_SEC * 60")
    case True
    then have lt: "samp_idx < 2400"
      by (simp add: search_consts)
    then have inr: "unat samp_idx \<le> 2400"
      by (simp add: word_less_nat_alt)
    from xor_frame_all_Some [OF len inr] obtain t where
      t: "xor_frame_all bits samp_idx = Some t"
      by blast
    have split: "samp_idx \<le> c \<longleftrightarrow> c = samp_idx \<or> samp_idx + 1 \<le> c" for c
      using word_inc_le_iff [OF lt, of c] by auto
    show ?thesis
    proof (cases "t < lmin")
      case less: True
      from "1.IH"(1) [OF True t less len] obtain mi' lm' where
        run: "find_frame_exhaustive_loop bits (samp_idx + 1) samp_idx t = Some (mi', lm')" and
        le: "lm' \<le> t" and
        all: "\<forall>c. samp_idx + 1 \<le> c \<and> c < 2400 \<longrightarrow>
                (\<exists>t. xor_frame_all bits c = Some t \<and> lm' \<le> t)" and
        dis: "mi' = samp_idx \<and> lm' = t \<or>
              samp_idx + 1 \<le> mi' \<and> mi' < 2400 \<and> lm' < t \<and> xor_frame_all bits mi' = Some lm' \<and>
              (\<forall>c. samp_idx + 1 \<le> c \<and> c < mi' \<longrightarrow>
                (\<exists>t. xor_frame_all bits c = Some t \<and> lm' < t))"
        by blast
      have a: "find_frame_exhaustive_loop bits samp_idx min_idx lmin = Some (mi', lm')"
        using True t less run by (subst find_frame_exhaustive_loop.simps) simp
      have b: "lm' \<le> lmin"
        using le less by auto
      have c: "\<forall>c. samp_idx \<le> c \<and> c < 2400 \<longrightarrow>
                (\<exists>t. xor_frame_all bits c = Some t \<and> lm' \<le> t)"
        using all t le by (auto simp: split)
      have d: "samp_idx \<le> mi' \<and> mi' < 2400 \<and> lm' < lmin \<and>
          xor_frame_all bits mi' = Some lm' \<and>
          (\<forall>c. samp_idx \<le> c \<and> c < mi' \<longrightarrow> (\<exists>t. xor_frame_all bits c = Some t \<and> lm' < t))"
        using dis
      proof
        assume "mi' = samp_idx \<and> lm' = t"
        with lt t less show ?thesis
          by auto
      next
        assume r: "samp_idx + 1 \<le> mi' \<and> mi' < 2400 \<and> lm' < t \<and>
          xor_frame_all bits mi' = Some lm' \<and>
          (\<forall>c. samp_idx + 1 \<le> c \<and> c < mi' \<longrightarrow>
            (\<exists>t. xor_frame_all bits c = Some t \<and> lm' < t))"
        then have "samp_idx \<le> mi'"
          by (simp add: split)
        moreover from r have "lm' < t"
          by simp
        then have "lm' < lmin"
          using less by (rule less_trans)
        moreover from r t have
          "\<forall>c. samp_idx \<le> c \<and> c < mi' \<longrightarrow> (\<exists>t. xor_frame_all bits c = Some t \<and> lm' < t)"
          by (auto simp: split)
        ultimately show ?thesis
          using r by blast
      qed
      from a b c d show ?thesis
        by blast
    next
      case nless: False
      from "1.IH"(2) [OF True t nless len] obtain mi' lm' where
        run: "find_frame_exhaustive_loop bits (samp_idx + 1) min_idx lmin = Some (mi', lm')" and
        le: "lm' \<le> lmin" and
        all: "\<forall>c. samp_idx + 1 \<le> c \<and> c < 2400 \<longrightarrow>
                (\<exists>t. xor_frame_all bits c = Some t \<and> lm' \<le> t)" and
        dis: "mi' = min_idx \<and> lm' = lmin \<or>
              samp_idx + 1 \<le> mi' \<and> mi' < 2400 \<and> lm' < lmin \<and>
              xor_frame_all bits mi' = Some lm' \<and>
              (\<forall>c. samp_idx + 1 \<le> c \<and> c < mi' \<longrightarrow>
                (\<exists>t. xor_frame_all bits c = Some t \<and> lm' < t))"
        by blast
      have a: "find_frame_exhaustive_loop bits samp_idx min_idx lmin = Some (mi', lm')"
        using True t nless run by (subst find_frame_exhaustive_loop.simps) simp
      from nless le have lt': "lm' \<le> t"
        by auto
      have c: "\<forall>c. samp_idx \<le> c \<and> c < 2400 \<longrightarrow>
                (\<exists>t. xor_frame_all bits c = Some t \<and> lm' \<le> t)"
        using all t lt' by (auto simp: split)
      have d: "mi' = min_idx \<and> lm' = lmin \<or>
          samp_idx \<le> mi' \<and> mi' < 2400 \<and> lm' < lmin \<and> xor_frame_all bits mi' = Some lm' \<and>
          (\<forall>c. samp_idx \<le> c \<and> c < mi' \<longrightarrow> (\<exists>t. xor_frame_all bits c = Some t \<and> lm' < t))"
        using dis
      proof
        assume "mi' = min_idx \<and> lm' = lmin"
        then show ?thesis
          by blast
      next
        assume r: "samp_idx + 1 \<le> mi' \<and> mi' < 2400 \<and> lm' < lmin \<and>
          xor_frame_all bits mi' = Some lm' \<and>
          (\<forall>c. samp_idx + 1 \<le> c \<and> c < mi' \<longrightarrow>
            (\<exists>t. xor_frame_all bits c = Some t \<and> lm' < t))"
        then have "samp_idx \<le> mi'"
          by (simp add: split)
        moreover from r nless have "lm' < t"
          by auto
        with r t have
          "\<forall>c. samp_idx \<le> c \<and> c < mi' \<longrightarrow> (\<exists>t. xor_frame_all bits c = Some t \<and> lm' < t)"
          by (auto simp: split)
        ultimately show ?thesis
          using r by blast
      qed
      from a le c d show ?thesis
        by blast
    qed
  next
    case False
    then have ge: "\<not> samp_idx < 2400"
      by (simp add: search_consts)
    have "find_frame_exhaustive_loop bits samp_idx min_idx lmin = Some (min_idx, lmin)"
      using False by (subst find_frame_exhaustive_loop.simps) simp
    moreover have "\<not> (samp_idx \<le> c \<and> c < 2400)" for c
      using ge by auto
    ultimately show ?thesis
      by auto
  qed
qed

lemma find_frame_exhaustive_binary:
  assumes len: "length bits = 4800" and bin: "\<forall>b\<in>set bits. b \<le> 1"
  shows "\<exists>idx err. find_frame_exhaustive bits = Some (idx, err) \<and> idx < 2400 \<and>
    unat err \<le> 720 \<and> xor_frame_all bits idx = Some err \<and>
    (\<forall>c<2400. \<exists>e. xor_frame_all bits c = Some e \<and> err \<le> e \<and> unat e \<le> 720) \<and>
    (\<forall>c<idx. \<exists>e. xor_frame_all bits c = Some e \<and> err < e)"
proof -
  from find_frame_exhaustive_loop_spec [OF len, of 0 9600 4800] obtain idx err where
    run: "find_frame_exhaustive_loop bits 0 9600 4800 = Some (idx, err)" and
    all: "\<forall>c. 0 \<le> c \<and> c < 2400 \<longrightarrow> (\<exists>t. xor_frame_all bits c = Some t \<and> err \<le> t)" and
    dis: "idx = 9600 \<and> err = 4800 \<or>
          0 \<le> idx \<and> idx < 2400 \<and> err < 4800 \<and> xor_frame_all bits idx = Some err \<and>
          (\<forall>c. 0 \<le> c \<and> c < idx \<longrightarrow> (\<exists>t. xor_frame_all bits c = Some t \<and> err < t))"
    by blast
  have small: "\<exists>e. xor_frame_all bits c = Some e \<and> unat e \<le> 720" if "c < 2400" for c
  proof -
    from that have "unat c \<le> 2400"
      by (simp add: word_less_nat_alt)
    from xor_frame_all_Some [OF len this] bin show ?thesis
      by blast
  qed
  from small [of 0] all have "unat err \<le> 720"
    by (fastforce simp: word_le_nat_alt)
  then have ne: "err \<noteq> 4800"
    by auto
  with dis have good: "idx < 2400" "xor_frame_all bits idx = Some err"
    "\<forall>c<idx. \<exists>e. xor_frame_all bits c = Some e \<and> err < e"
    by auto
  have "\<forall>c<2400. \<exists>e. xor_frame_all bits c = Some e \<and> err \<le> e \<and> unat e \<le> 720"
    using all small by fastforce
  with run good \<open>unat err \<le> 720\<close> show ?thesis
    by (simp add: find_frame_exhaustive_def search_consts)
qed

lemma decode_sec_Some:
  assumes "unat samp_idx + 40 \<le> length bits"
  shows "\<exists>r sc. decode_sec bits samp_idx = Some (r, sc)"
proof -
  from assms have "unat samp_idx + unat SAMPLES_PER_SEC \<le> length bits"
    by (simp add: sample_consts)
  from xor_templates_Some [OF this] obtain z o' m where
    "xor_zero bits samp_idx = Some z" "xor_one bits samp_idx = Some o'"
    "xor_mark bits samp_idx = Some m"
    by blast
  from decode_sec_of_scores [OF this] show ?thesis
    by (auto split: if_splits)
qed

lemma decode_field_loop_Some:
  assumes "length bits = 4800" and "unat frame_idx \<le> 2400"
    and "\<forall>c\<in>set code. unat (bit_c c) \<le> 59"
  shows "\<exists>r. decode_field_loop bits frame_idx code lscore worst_score field_val = Some r"
  using assms(3)
proof (induction code arbitrary: lscore worst_score field_val)
  case Nil
  show ?case by simp
next
  case (Cons c cs)
  then have "unat (bit_c c) \<le> 59"
    by simp
  with assms have "unat (frame_idx + bit_c c * SAMPLES_PER_SEC) + 40 \<le> length bits"
    by (simp add: unat_sec_pos)
  from decode_sec_Some [OF this] obtain r sc where
    "decode_sec bits (frame_idx + bit_c c * SAMPLES_PER_SEC) = Some (r, sc)"
    by blast
  moreover from Cons have "\<exists>r. decode_field_loop bits frame_idx cs l w v = Some r" for l w v
    by simp
  ultimately show ?case
    by (simp add: Let_def)
qed

lemma decode_frame_loop_Some:
  assumes "length bits = 4800" and "unat frame_idx \<le> 2400"
    and "\<forall>f\<in>set fs. \<forall>c\<in>set (code_f f). unat (bit_c c) \<le> 59"
  shows "\<exists>r. decode_frame_loop bits frame_idx fs score = Some r"
  using assms(3)
proof (induction fs arbitrary: score)
  case Nil
  show ?case by simp
next
  case (Cons f fs)
  then have "\<forall>c\<in>set (code_f f). unat (bit_c c) \<le> 59"
    by simp
  from decode_field_loop_Some [OF assms(1,2) this, of 0 0 0] obtain res res_score worst where
    "decode_field bits frame_idx (code_f f) = Some (res, res_score, worst)"
    by (auto simp: decode_field_def)
  moreover from Cons have "\<exists>r. decode_frame_loop bits frame_idx fs s = Some r" for s
    by simp
  then obtain fs' score' where
    "decode_frame_loop bits frame_idx fs (score + res_score) = Some (fs', score')"
    by fastforce
  ultimately show ?case
    by simp
qed

lemma frame_positions: "\<forall>f\<in>set frame. \<forall>c\<in>set (code_f f). unat (bit_c c) \<le> 59"
  by (simp add: frame_def codes_def hours_code_def minutes_code_def day_code_def
      year_code_def lyi_code_def lsw_code_def dst_code_def)

lemma decode_frame_Some:
  assumes "length bits = 4800" and "frame_idx < 2400"
  shows "\<exists>fs score. decode_frame bits frame_idx = Some (fs, score)"
proof -
  from assms(2) have "unat frame_idx \<le> 2400"
    by (simp add: word_less_nat_alt)
  from decode_frame_loop_Some [OF assms(1) this frame_positions, of 0] show ?thesis
    by (auto simp: decode_frame_def)
qed

lemma find_frame_binary:
  assumes len: "length bits = 4800" and bin: "\<forall>b\<in>set bits. b \<le> 1"
  shows "\<exists>idx err. find_frame bits = Some (idx, err) \<and> idx < 2400 \<and>
    unat err \<le> 720 \<and> xor_frame_all bits idx = Some err \<and>
    (\<forall>c<2400. \<exists>e. xor_frame_all bits c = Some e \<and> err \<le> e \<and> unat e \<le> 720) \<and>
    (\<forall>c<idx. \<exists>e. xor_frame_all bits c = Some e \<and> err < e)"
proof -
  have "find_frame bits = find_frame_exhaustive bits"
    by (simp add: find_frame_def find_frame_exhaustive_def find_frame_loop_eq [OF len])
  with find_frame_exhaustive_binary [OF len bin] show ?thesis
    by simp
qed

lemma xor_frame_switch_const:
  assumes "length bits = 4800" and "\<forall>i<4800. bits ! i = v"
    and "unat samp_idx \<le> 2400" and "unat (sec f) \<le> 59"
  shows "xor_frame_switch bits samp_idx f sm =
    Some (sm + (if type_f f = 0 then 8 * ucast v + 32 * (1 XOR ucast v)
                else if type_f f = 2 then 32 * ucast v + 8 * (1 XOR ucast v) else 0))"
proof -
  let ?p = "samp_idx + sec f * SAMPLES_PER_SEC"
  have p: "unat ?p = unat samp_idx + unat (sec f) * 40"
    using assms(3,4) by (rule unat_sec_pos)
  with assms have "unat ?p + unat SAMPLES_PER_SEC \<le> length bits" "length bits < 2 ^ 32"
    "\<forall>k < unat SAMPLES_PER_SEC. bits ! (unat ?p + k) = v"
    by (simp_all add: sample_consts)
  note c = xor_templates_const [OF this]
  show ?thesis
    by (simp add: xor_frame_switch_def c)
qed

lemma xor_frame_all_loop_const:
  assumes "length bits = 4800" and "\<forall>i<4800. bits ! i = v"
    and "unat samp_idx \<le> 2400" and "\<forall>f\<in>set fs. unat (sec f) \<le> 59"
  shows "xor_frame_all_loop bits samp_idx fs sm =
    Some (sm + sum_list (map (\<lambda>f. if type_f f = 0 then 8 * ucast v + 32 * (1 XOR ucast v)
                else if type_f f = 2 then 32 * ucast v + 8 * (1 XOR ucast v) else 0) fs))"
  using assms(4)
proof (induction fs arbitrary: sm)
  case Nil
  show ?case by simp
next
  case (Cons f fs)
  then have "unat (sec f) \<le> 59" "\<forall>f\<in>set fs. unat (sec f) \<le> 59"
    by simp_all
  from xor_frame_switch_const [OF assms(1,2,3) this(1)] Cons.IH [OF this(2)] show ?case
    by (simp add: add.assoc)
qed

lemma xor_frame_all_loop_sum:
  assumes "\<forall>f\<in>set fs. type_f f = 0 \<or> type_f f = 2"
  shows "xor_frame_all_loop bits samp_idx fs sm =
    (case sum_scores
        (map (\<lambda>f. if type_f f = 0 then xor_zero bits (samp_idx + sec f * SAMPLES_PER_SEC)
                  else xor_mark bits (samp_idx + sec f * SAMPLES_PER_SEC)) fs) of
       None \<Rightarrow> None
     | Some s \<Rightarrow> Some (sm + s))"
  using assms
proof (induction fs arbitrary: sm)
  case Nil
  show ?case by simp
next
  case (Cons f fs)
  then have ty: "type_f f = 0 \<or> type_f f = 2" and rest: "\<forall>f\<in>set fs. type_f f = 0 \<or> type_f f = 2"
    by simp_all
  note ih = Cons.IH [OF rest]
  from ty show ?case
  proof
    assume z: "type_f f = 0"
    show ?thesis
    proof (cases "xor_zero bits (samp_idx + sec f * SAMPLES_PER_SEC)")
      case None
      with z show ?thesis
        by (simp add: xor_frame_switch_def)
    next
      case (Some r)
      with z ih [of "sm + r"] show ?thesis
        by (simp add: xor_frame_switch_def add.assoc split: option.splits)
    qed
  next
    assume m: "type_f f = 2"
    show ?thesis
    proof (cases "xor_mark bits (samp_idx + sec f * SAMPLES_PER_SEC)")
      case None
      with m show ?thesis
        by (simp add: xor_frame_switch_def)
    next
      case (Some r)
      with m ih [of "sm + r"] show ?thesis
        by (simp add: xor_frame_switch_def add.assoc split: option.splits)
    qed
  qed
qed

lemma frame_const_fields_types: "\<forall>f\<in>set frame_const_fields. type_f f = 0 \<or> type_f f = 2"
  by (simp add: frame_const_fields_def)

lemma xor_frame_all_cumulative: "xor_frame_all bits samp_idx = cumulative_error bits samp_idx"
  using xor_frame_all_loop_sum [OF frame_const_fields_types, of bits samp_idx 0]
  by (simp add: xor_frame_all_def cumulative_error_def fixed_scores_def split: option.splits)

lemma length_concat_blocks:
  assumes "\<forall>s. length (pat s) = n"
  shows "length (concat (map pat [0..<m])) = n * m"
  using assms by (induction m) simp_all

lemma take_drop_concat_blocks:
  assumes len: "\<forall>s. length (pat s) = n" and "s < m"
  shows "take n (drop (n * s) (concat (map pat [0..<m]))) = pat s"
  using \<open>s < m\<close>
proof (induction m)
  case 0
  then show ?case by simp
next
  case (Suc m)
  have l: "length (concat (map pat [0..<m])) = n * m"
    using len by (rule length_concat_blocks)
  show ?case
  proof (cases "s < m")
    case True
    then have "Suc s \<le> m"
      by simp
    then have "n * Suc s \<le> n * m"
      by (rule mult_le_mono2)
    then have "n * s + n \<le> n * m"
      by simp
    with Suc.IH [OF True] l len show ?thesis
      by simp
  next
    case False
    with Suc.prems have "s = m"
      by simp
    with l len show ?thesis
      by simp
  qed
qed

lemma length_frame_samples: "length frame_samples = 2400"
proof -
  have "\<forall>s. length ((\<lambda>s. if s \<in> {0, 9, 19, 29, 39, 49, 59 :: nat} then mark_samples
      else zero_samples) s) = 40"
    by (simp add: mark_samples_def zero_samples_def)
  from length_concat_blocks [OF this, of 60] show ?thesis
    by (simp add: frame_samples_def)
qed

lemma frame_samples_second:
  assumes "s < 60"
  shows "take 40 (drop (40 * s) frame_samples) =
    (if s \<in> {0, 9, 19, 29, 39, 49, 59} then mark_samples else zero_samples)"
proof -
  have "\<forall>s. length ((\<lambda>s. if s \<in> {0, 9, 19, 29, 39, 49, 59 :: nat} then mark_samples
      else zero_samples) s) = 40"
    by (simp add: mark_samples_def zero_samples_def)
  from take_drop_concat_blocks [OF this assms] show ?thesis
    by (simp add: frame_samples_def)
qed

lemma frame_samples_binary: "\<forall>b\<in>set frame_samples. b \<le> 1"
  by (auto simp: frame_samples_def mark_samples_def zero_samples_def)

lemma planted_length: "k \<le> 2400 \<Longrightarrow> length (planted k) = 4800"
  by (simp add: planted_def length_frame_samples)

lemma planted_binary: "\<forall>b\<in>set (planted k). b \<le> 1"
  using frame_samples_binary by (auto simp: planted_def)

lemma planted_second:
  assumes "k \<le> 2400" and "s < 60"
  shows "take 40 (drop (k + 40 * s) (planted k)) =
    (if s \<in> {0, 9, 19, 29, 39, 49, 59} then mark_samples else zero_samples)"
proof -
  from assms(2) have "40 * s + 40 \<le> length frame_samples"
    by (simp add: length_frame_samples)
  then show ?thesis
    using frame_samples_second [OF assms(2)] by (simp add: planted_def)
qed

lemma planted_low:
  assumes "k \<le> 2400" and "i < k + 32"
  shows "planted k ! i = 0"
proof (cases "i < k")
  case True
  then show ?thesis
    by (simp add: planted_def nth_append)
next
  case False
  with assms have j: "i - k < 32"
    by simp
  have "take 40 (drop (40 * 0) frame_samples) = mark_samples"
    using frame_samples_second [of 0] by simp
  then have "take 40 frame_samples ! (i - k) = mark_samples ! (i - k)"
    by simp
  with j have "frame_samples ! (i - k) = 0"
    by (simp add: mark_samples_def nth_append)
  with False j show ?thesis
    by (simp add: planted_def nth_append length_frame_samples)
qed

lemma perfect_mark:
  assumes "unat p + 40 \<le> length bits" and "length bits < 2 ^ 32"
    and "take 40 (drop (unat p) bits) = mark_samples"
  shows "xor_mark bits p = Some 0"
proof -
  have "take 32 (drop (unat p) bits) = take 32 (take 40 (drop (unat p) bits))"
    by simp
  then have a: "take 32 (drop (unat p) bits) = replicate 32 0"
    by (simp only: assms(3)) (simp add: mark_samples_def)
  have "take 8 (drop (unat p + 32) bits) = drop 32 (take 40 (drop (unat p) bits))"
    by (simp add: drop_take add.commute)
  then have b: "take 8 (drop (unat p + 32) bits) = replicate 8 1"
    by (simp only: assms(3)) (simp add: mark_samples_def)
  from assms(1,2) show ?thesis
    by (simp add: xor_mark_eq a b mism_replicate)
qed

lemma perfect_zero:
  assumes "unat p + 40 \<le> length bits" and "length bits < 2 ^ 32"
    and "take 40 (drop (unat p) bits) = zero_samples"
  shows "xor_zero bits p = Some 0"
proof -
  have "take 8 (drop (unat p) bits) = take 8 (take 40 (drop (unat p) bits))"
    by simp
  then have a: "take 8 (drop (unat p) bits) = replicate 8 0"
    by (simp only: assms(3)) (simp add: zero_samples_def)
  have "take 32 (drop (unat p + 8) bits) = drop 8 (take 40 (drop (unat p) bits))"
    by (simp add: drop_take add.commute)
  then have b: "take 32 (drop (unat p + 8) bits) = replicate 32 1"
    by (simp only: assms(3)) (simp add: zero_samples_def)
  from assms(1,2) show ?thesis
    by (simp add: xor_zero_eq a b mism_replicate)
qed

lemma planted_fixed_score:
  assumes "unat c \<le> 2400" and "unat s \<le> 59"
  shows "unat s \<in> {0, 9, 19, 29, 39, 49, 59} \<Longrightarrow>
      xor_mark (planted (unat c)) (c + s * SAMPLES_PER_SEC) = Some 0"
    and "unat s \<notin> {0, 9, 19, 29, 39, 49, 59} \<Longrightarrow>
      xor_zero (planted (unat c)) (c + s * SAMPLES_PER_SEC) = Some 0"
proof -
  let ?p = "c + s * SAMPLES_PER_SEC"
  have p: "unat ?p = unat c + 40 * unat s"
    using unat_sec_pos [OF assms] by simp
  from assms(2) have s: "unat s < 60"
    by simp
  have inb: "unat ?p + 40 \<le> length (planted (unat c))" "length (planted (unat c)) < 2 ^ 32"
    using assms by (simp_all add: p planted_length)
  note w = planted_second [OF assms(1) s]
  show "xor_mark (planted (unat c)) ?p = Some 0" if "unat s \<in> {0, 9, 19, 29, 39, 49, 59}"
    using that w by (intro perfect_mark inb) (simp add: p)
  show "xor_zero (planted (unat c)) ?p = Some 0" if "unat s \<notin> {0, 9, 19, 29, 39, 49, 59}"
    using that w by (intro perfect_zero inb) (simp add: p)
qed

lemma planted_error_at:
  assumes "unat c \<le> 2400"
  shows "cumulative_error (planted (unat c)) c = Some 0"
proof -
  have m: "xor_mark (planted (unat c)) (c + s * SAMPLES_PER_SEC) = Some 0"
    if "s \<in> {9, 19, 29, 39, 49, 59}" for s :: u32
    using that planted_fixed_score(1) [OF assms, of s] by auto
  have m0: "xor_mark (planted (unat c)) c = Some 0"
    using planted_fixed_score(1) [OF assms, of 0] by simp
  have z: "xor_zero (planted (unat c)) (c + s * SAMPLES_PER_SEC) = Some 0"
    if "s \<in> {4, 10, 11, 14, 20, 21, 24, 34, 35, 44, 54}" for s :: u32
    using that planted_fixed_score(2) [OF assms, of s] by auto
  show ?thesis
    by (simp add: cumulative_error_def fixed_scores_def frame_const_fields_def m m0 z)
qed

lemma xor_mark_high_zero:
  assumes "unat p + 40 \<le> length bits" and "length bits < 2 ^ 32"
    and "bits ! (unat p + 32) = 0"
  shows "\<exists>r. xor_mark bits p = Some r \<and> 0 < r"
proof -
  define lo where "lo = take 32 (drop (unat p) bits)"
  define hi where "hi = take 7 (drop (Suc (unat p + 32)) bits)"
  from assms(1) have "unat p + 32 < length bits"
    by simp
  from take_drop_step [OF this, of 8] assms(3)
  have h: "take 8 (drop (unat p + 32) bits) = 0 # hi"
    by (simp add: hi_def)
  have "unat (mism 0 lo) \<le> 255 * length lo"
    by (rule mism_le) simp
  moreover have "unat (mism 1 hi) \<le> 255 * length hi"
    by (rule mism_le) simp
  moreover have "length lo \<le> 32" "length hi \<le> 7"
    by (simp_all add: lo_def hi_def)
  ultimately have b: "unat (mism 0 lo) \<le> 8160" "unat (mism 1 hi) \<le> 1785"
    by linarith+
  then have "unat (1 :: u32) + unat (mism 1 hi) < 2 ^ LENGTH(32)"
    by simp
  then have u1: "unat (1 + mism 1 hi) = 1 + unat (mism 1 hi)"
    by (simp add: unat_add_lem [THEN iffD1])
  with b have "unat (mism 0 lo) + unat (1 + mism 1 hi) < 2 ^ LENGTH(32)"
    by simp
  then have "unat (mism 0 lo + (1 + mism 1 hi)) = unat (mism 0 lo) + unat (1 + mism 1 hi)"
    by (simp add: unat_add_lem [THEN iffD1])
  with u1 have "0 < unat (mism 0 lo + (1 + mism 1 hi))"
    by simp
  then have "0 < mism 0 lo + (1 + mism 1 hi)"
    by (simp add: word_less_nat_alt)
  moreover have "xor_mark bits p = Some (mism 0 lo + (1 + mism 1 hi))"
    using assms(1,2) by (simp add: xor_mark_eq h lo_def)
  ultimately show ?thesis
    by simp
qed

lemma planted_error_before:
  assumes "k \<le> 2400" and "unat c < k"
  shows "\<exists>e. cumulative_error (planted k) c = Some e \<and> 0 < e"
proof -
  let ?b = "planted k"
  have len: "length ?b = 4800"
    using assms(1) by (rule planted_length)
  from assms have c: "unat c \<le> 2400"
    by simp
  from assms have "?b ! (unat c + 32) = 0"
    by (intro planted_low) simp_all
  with xor_mark_high_zero [of c ?b] len c obtain r where
    r: "xor_mark ?b c = Some r" "0 < r"
    by auto
  obtain fs where fs: "frame_const_fields = \<lparr>type_f = 2, sec = 0\<rparr> # fs"
    by (simp add: frame_const_fields_def)
  have fs_sec: "\<forall>f\<in>set fs. unat (sec f) \<le> 59"
    using frame_const_fields_sec unfolding fs by simp
  have fs_len: "length fs = 17"
    using frame_const_fields_length unfolding fs by simp
  have r_le: "unat r \<le> 10200"
    using template_bounds(2) [of c ?b] len c r(1) by auto
  then have "unat r + 10200 * length fs < 2 ^ 32"
    by (simp add: fs_len)
  from xor_frame_all_loop_Some [OF len c fs_sec this] obtain t where
    t: "xor_frame_all_loop ?b c fs r = Some t" "unat r \<le> unat t"
    by blast
  have "xor_frame_all ?b c = Some t"
    using r(1) t(1) by (simp add: xor_frame_all_def fs xor_frame_switch_def)
  moreover from r(2) t(2) have "0 < t"
    by (simp add: word_less_nat_alt)
  ultimately show ?thesis
    by (simp add: xor_frame_all_cumulative)
qed

lemma find_frame_planted_1000: "find_frame (planted 1000) = Some (1000, 0)"
proof -
  let ?b = "planted 1000"
  have "length ?b = 4800" "\<forall>b\<in>set ?b. b \<le> 1"
    by (simp_all add: planted_length planted_binary)
  from find_frame_binary [OF this] obtain idx err where
    ff: "find_frame ?b = Some (idx, err)" and
    e: "xor_frame_all ?b idx = Some err" and
    least: "\<forall>c<2400. \<exists>e. xor_frame_all ?b c = Some e \<and> err \<le> e \<and> unat e \<le> 720" and
    first: "\<forall>c<idx. \<exists>e. xor_frame_all ?b c = Some e \<and> err < e"
    by blast
  have at: "xor_frame_all ?b 1000 = Some 0"
    using planted_error_at [of 1000] by (simp add: xor_frame_all_cumulative)
  from least [rule_format, of 1000] at have err: "err = 0"
    by simp
  have "\<not> idx < 1000"
  proof
    assume "idx < 1000"
    then have "unat idx < 1000"
      by (simp add: word_less_nat_alt)
    from planted_error_before [OF _ this] e err show False
      by (simp add: xor_frame_all_cumulative)
  qed
  moreover have "\<not> 1000 < idx"
  proof
    assume "1000 < idx"
    with first at err show False
      by auto
  qed
  ultimately have "idx \<le> 1000" "1000 \<le> idx"
    by (simp_all add: not_less)
  then have "idx = 1000"
    by (rule order.antisym)
  with ff err show ?thesis
    by simp
qed

section \<open>Claims about find_frame\<close>

text \<open>
  C3, as the code has it. The buffer is the array of \<open>BLEN\<close> sampled bits, each 0 or 1.
  The candidates are the offsets of the loop, from 0 up to but not including
  \<open>BLEN - SAMPLES_PER_SEC * 60\<close> (0 to 2399); that offset itself, the last one at which a
  frame fits, is not tried. \<open>find_frame\<close> returns a candidate and an error such that the
  error is the cumulative error of that candidate over all 18 entries of
  \<open>frame_const_fields\<close> (\<open>cumulative_error\<close>: the scores of the symbol matcher at
  \<open>offset + sec * SAMPLES_PER_SEC\<close>, added up), no candidate has a smaller cumulative
  error, and every lower candidate has a strictly larger one: the first offset of
  minimum error wins.
\<close>

theorem find_frame_global_min:
  assumes "length bits = unat BLEN" and "\<forall>b\<in>set bits. b \<le> 1"
  shows "\<exists>idx err. find_frame bits = Some (idx, err) \<and>
    idx < BLEN - SAMPLES_PER_SEC * 60 \<and>
    cumulative_error bits idx = Some err \<and>
    (\<forall>c < BLEN - SAMPLES_PER_SEC * 60. \<exists>e. cumulative_error bits c = Some e \<and> err \<le> e) \<and>
    (\<forall>c < idx. \<exists>e. cumulative_error bits c = Some e \<and> err < e)"
proof -
  from assms(1) have len: "length bits = 4800"
    by (simp add: sample_consts)
  from find_frame_binary [OF len assms(2)] show ?thesis
    unfolding search_consts xor_frame_all_cumulative by blast
qed

theorem find_frame_global_min_witness: "find_frame (planted 1000) = Some (1000, 0)"
proof -
  let ?b = "planted 1000"
  have h: "length ?b = unat BLEN" "\<forall>b\<in>set ?b. b \<le> 1"
    by (simp_all add: planted_length planted_binary sample_consts)
  from find_frame_global_min [OF h] obtain idx err where
    ff: "find_frame ?b = Some (idx, err)" and
    least: "\<forall>c < BLEN - SAMPLES_PER_SEC * 60. \<exists>e. cumulative_error ?b c = Some e \<and> err \<le> e" and
    e: "cumulative_error ?b idx = Some err" and
    first: "\<forall>c < idx. \<exists>e. cumulative_error ?b c = Some e \<and> err < e"
    by blast
  have at: "cumulative_error ?b 1000 = Some 0"
    using planted_error_at [of 1000] by simp
  from least [rule_format, of 1000] at have err: "err = 0"
    by (simp add: search_consts)
  have "\<not> idx < 1000"
  proof
    assume "idx < 1000"
    then have "unat idx < 1000"
      by (simp add: word_less_nat_alt)
    from planted_error_before [OF _ this] e err show False
      by simp
  qed
  moreover have "\<not> 1000 < idx"
  proof
    assume "1000 < idx"
    with first at err show False
      by auto
  qed
  ultimately have "idx \<le> 1000" "1000 \<le> idx"
    by (simp_all add: not_less)
  then have "idx = 1000"
    by (rule order.antisym)
  with ff err show ?thesis
    by simp
qed

lemma find_frame_planted_2400:
  "\<exists>idx err. find_frame (planted 2400) = Some (idx, err) \<and> idx < 2400 \<and> 0 < err"
proof -
  let ?b = "planted 2400"
  have "length ?b = 4800" "\<forall>b\<in>set ?b. b \<le> 1"
    by (simp_all add: planted_length planted_binary)
  from find_frame_binary [OF this] obtain idx err where
    ff: "find_frame ?b = Some (idx, err)" and idx: "idx < 2400" and
    e: "xor_frame_all ?b idx = Some err"
    by blast
  from idx have "unat idx < 2400"
    by (simp add: word_less_nat_alt)
  from planted_error_before [OF _ this] e have "0 < err"
    by (simp add: xor_frame_all_cumulative)
  with ff idx show ?thesis
    by simp
qed

text \<open>
  C3 as stated, with the offset \<open>BLEN - SAMPLES_PER_SEC * 60\<close> among the candidates,
  fails. The buffer \<open>planted 2400\<close> holds a perfect frame at offset 2400, where the
  cumulative error is 0, and \<open>find_frame\<close> returns an offset below 2400 with an error
  above 0.
\<close>

theorem find_frame_last_offset_counterexample:
  "length (planted 2400) = unat BLEN \<and>
   cumulative_error (planted 2400) (BLEN - SAMPLES_PER_SEC * 60) = Some 0 \<and>
   find_frame (planted 2400) \<noteq> Some (BLEN - SAMPLES_PER_SEC * 60, 0) \<and>
   (case find_frame (planted 2400) of
      None \<Rightarrow> False
    | Some (idx, err) \<Rightarrow> idx < BLEN - SAMPLES_PER_SEC * 60 \<and> 0 < err)"
  using find_frame_planted_2400 planted_error_at [of 2400]
  by (auto simp: search_consts sample_consts planted_length)

text \<open>
  C4. On the array of \<open>BLEN\<close> samples, whatever bytes it holds, the search with the early
  return of \<open>xor_frame\<close> returns the same offset and the same total error as the
  exhaustive search that scores all 18 entries for every candidate; both return.
\<close>

theorem find_frame_pruning_exact:
  assumes "length bits = unat BLEN"
  shows "find_frame bits = find_frame_exhaustive bits \<and>
    (\<exists>idx err. find_frame_exhaustive bits = Some (idx, err))"
proof -
  from assms have len: "length bits = 4800"
    by (simp add: sample_consts)
  have "find_frame bits = find_frame_exhaustive bits"
    by (simp add: find_frame_def find_frame_exhaustive_def find_frame_loop_eq [OF len])
  moreover from find_frame_exhaustive_loop_spec [OF len, of 0 9600 4800]
  have "\<exists>idx err. find_frame_exhaustive bits = Some (idx, err)"
    by (auto simp: find_frame_exhaustive_def search_consts)
  ultimately show ?thesis
    by simp
qed

theorem find_frame_pruning_exact_witness:
  "find_frame (planted 1000) = Some (1000, 0) \<and>
   find_frame_exhaustive (planted 1000) = Some (1000, 0)"
proof -
  have h: "length (planted 1000) = unat BLEN"
    by (simp add: planted_length sample_consts)
  from find_frame_pruning_exact [OF h] find_frame_planted_1000 show ?thesis
    by simp
qed

text \<open>
  C10. For every array of \<open>BLEN\<close> sampled bits, each 0 or 1: the cumulative error of every
  candidate is at most \<open>18 * SAMPLES_PER_SEC = 720\<close>, below the initial minimum
  \<open>SAMPLES_PER_SEC * 120 = 4800\<close>, and the first call of \<open>xor_frame\<close> already returns a
  value below that minimum. \<open>find_frame\<close> returns an offset strictly below
  \<open>BLEN - SAMPLES_PER_SEC * 60\<close>, never the initial \<open>BLEN + BLEN\<close>, and \<open>decode_frame\<close>
  at the returned offset reads inside the array only (it returns a result; an outside
  read would make it \<open>None\<close>).
\<close>

theorem find_frame_offset_in_range:
  assumes "length bits = unat BLEN" and "\<forall>b\<in>set bits. b \<le> 1"
  shows "\<exists>idx err. find_frame bits = Some (idx, err) \<and>
    idx < BLEN - SAMPLES_PER_SEC * 60 \<and> idx \<noteq> BLEN + BLEN \<and>
    unat err \<le> 18 * unat SAMPLES_PER_SEC \<and> err < SAMPLES_PER_SEC * 120 \<and>
    (\<forall>c < BLEN - SAMPLES_PER_SEC * 60.
       \<exists>e. xor_frame_all bits c = Some e \<and> unat e \<le> 18 * unat SAMPLES_PER_SEC) \<and>
    (\<exists>e. xor_frame bits 0 (SAMPLES_PER_SEC * 120) = Some e \<and> e < SAMPLES_PER_SEC * 120) \<and>
    (\<exists>fs score. decode_frame bits idx = Some (fs, score))"
proof -
  from assms(1) have len: "length bits = 4800"
    by (simp add: sample_consts)
  from find_frame_binary [OF len assms(2)] obtain idx err where
    ff: "find_frame bits = Some (idx, err)" and idx: "idx < 2400" and
    err: "unat err \<le> 720" and
    all: "\<forall>c<2400. \<exists>e. xor_frame_all bits c = Some e \<and> err \<le> e \<and> unat e \<le> 720"
    by blast
  from idx have ne: "idx \<noteq> 9600"
    by auto
  from err have lt: "err < 4800"
    by (simp add: word_less_nat_alt)
  from all [rule_format, of 0]
  have "\<exists>e. xor_frame_all bits 0 = Some e \<and> err \<le> e \<and> unat e \<le> 720"
    by simp
  then obtain e0 where e0: "xor_frame_all bits 0 = Some e0" "unat e0 \<le> 720"
    by blast
  from e0(2) have "e0 \<le> 4800" "e0 < 4800"
    by (simp_all add: word_le_nat_alt word_less_nat_alt)
  with xor_frame_pruned [OF len _ e0(1), of 4800]
  have first: "\<exists>e. xor_frame bits 0 4800 = Some e \<and> e < 4800"
    by simp
  from decode_frame_Some [OF len idx] ff idx ne err lt all first show ?thesis
    unfolding search_consts sample_consts by fastforce
qed

theorem find_frame_offset_in_range_witness:
  "\<exists>idx err. find_frame (replicate 4800 1) = Some (idx, err) \<and>
      idx < BLEN - SAMPLES_PER_SEC * 60 \<and> idx \<noteq> BLEN + BLEN \<and>
      unat err \<le> 18 * unat SAMPLES_PER_SEC \<and> err < SAMPLES_PER_SEC * 120 \<and>
      (\<exists>e. xor_frame (replicate 4800 1) 0 (SAMPLES_PER_SEC * 120) = Some e \<and>
           e < SAMPLES_PER_SEC * 120) \<and>
      (\<exists>fs score. decode_frame (replicate 4800 1) idx = Some (fs, score))"
proof -
  have h: "length (replicate 4800 (1 :: u8)) = unat BLEN"
    "\<forall>b\<in>set (replicate 4800 (1 :: u8)). b \<le> 1"
    by (simp_all add: sample_consts)
  from find_frame_offset_in_range [OF h] show ?thesis
    by blast
qed

subsection \<open>Bytes other than 0 and 1\<close>

text \<open>
  The bound of 720 rests on the samples being bits. The array stores them in bytes, and
  \<open>fill_buffer_file\<close> does not check what a file holds: on 4800 bytes 255 every
  candidate scores 183192, no candidate goes below the initial minimum, \<open>find_frame\<close>
  returns its initial values, and \<open>decode_frame\<close> at that offset reads outside the
  array.
\<close>

lemma xor_frame_all_ff:
  assumes "unat samp_idx \<le> 2400"
  shows "xor_frame_all (replicate 4800 255) samp_idx = Some 183192"
proof -
  have "length (replicate 4800 (255 :: u8)) = 4800" "\<forall>i<4800. replicate 4800 (255 :: u8) ! i = 255"
    by simp_all
  from xor_frame_all_loop_const [OF this assms frame_const_fields_sec, of 0] show ?thesis
    by (simp add: xor_frame_all_def frame_const_fields_def)
qed

lemma find_frame_ff: "find_frame (replicate 4800 255) = Some (BLEN + BLEN, SAMPLES_PER_SEC * 120)"
proof -
  let ?b = "replicate 4800 (255 :: u8)"
  have len: "length ?b = 4800"
    by simp
  from find_frame_exhaustive_loop_spec [OF len, of 0 9600 4800] obtain idx err where
    run: "find_frame_exhaustive_loop ?b 0 9600 4800 = Some (idx, err)" and
    dis: "idx = 9600 \<and> err = 4800 \<or>
          idx < 2400 \<and> err < 4800 \<and> xor_frame_all ?b idx = Some err"
    by blast
  have "\<not> (idx < 2400 \<and> err < 4800 \<and> xor_frame_all ?b idx = Some err)"
  proof
    assume a: "idx < 2400 \<and> err < 4800 \<and> xor_frame_all ?b idx = Some err"
    then have "unat idx \<le> 2400"
      by (simp add: word_less_nat_alt)
    from xor_frame_all_ff [OF this] a show False
      by auto
  qed
  with dis run show ?thesis
    by (simp add: find_frame_def find_frame_loop_eq [OF len] search_consts)
qed

lemma decode_frame_ff: "decode_frame (replicate 4800 255) (BLEN + BLEN) = None"
  by (simp add: decode_frame_def frame_def decode_field_def hours_code_def codes_def
      decode_sec_def xor_zero_def xor_sec_def sample_consts xor_sec_loop.simps [of _ _ 10080]
      rd_def)

section \<open>Claims about decode_field\<close>

lemma decode_field_loop_marker:
  assumes "k < length code"
    and "decode_sec bits (frame_idx + bit_c (code ! k) * SAMPLES_PER_SEC) = Some (2, s)"
    and "\<forall>j<k. decode_sec bits (frame_idx + bit_c (code ! j) * SAMPLES_PER_SEC) \<noteq> None"
  shows "decode_field_loop bits frame_idx code lscore worst_score field_val =
    Some (0, DECODE_FAILURE, SAMPLES_PER_SEC)"
  using assms
proof (induction code arbitrary: k lscore worst_score field_val)
  case Nil
  then show ?case by simp
next
  case (Cons c cs)
  show ?case
  proof (cases k)
    case 0
    with Cons.prems(2) show ?thesis
      by (simp add: Let_def)
  next
    case (Suc k')
    with Cons.prems(3) have "decode_sec bits (frame_idx + bit_c c * SAMPLES_PER_SEC) \<noteq> None"
      by auto
    then obtain r sc where
      d: "decode_sec bits (frame_idx + bit_c c * SAMPLES_PER_SEC) = Some (r, sc)"
      by auto
    from Suc Cons.prems have "k' < length cs"
      "decode_sec bits (frame_idx + bit_c (cs ! k') * SAMPLES_PER_SEC) = Some (2, s)"
      "\<forall>j<k'. decode_sec bits (frame_idx + bit_c (cs ! j) * SAMPLES_PER_SEC) \<noteq> None"
      by auto
    from Cons.IH [OF this] d show ?thesis
      by (simp add: Let_def)
  qed
qed

text \<open>
  C5. If position \<open>k\<close> of the field's code classifies as MARKER (2), and the positions
  before it lie inside the buffer, then \<open>decode_field\<close> returns value 0, score
  \<open>DECODE_FAILURE = 9999\<close> and worst score \<open>SAMPLES_PER_SEC = 40\<close>. Nothing is assumed
  about the positions after \<open>k\<close>, and the result is the same for any other entries
  \<open>rest\<close> in their place, also entries outside the buffer: they are not evaluated.
\<close>

theorem decode_field_marker_fails:
  assumes "k < length code"
    and "decode_sec bits (frame_idx + bit_c (code ! k) * SAMPLES_PER_SEC) = Some (2, s)"
    and "\<forall>j<k. decode_sec bits (frame_idx + bit_c (code ! j) * SAMPLES_PER_SEC) \<noteq> None"
  shows "decode_field bits frame_idx code = Some (0, DECODE_FAILURE, SAMPLES_PER_SEC) \<and>
    decode_field bits frame_idx (take (Suc k) code @ rest) =
      Some (0, DECODE_FAILURE, SAMPLES_PER_SEC) \<and>
    DECODE_FAILURE = 9999 \<and> SAMPLES_PER_SEC = 40"
proof -
  have "decode_field bits frame_idx code = Some (0, DECODE_FAILURE, SAMPLES_PER_SEC)"
    unfolding decode_field_def using assms by (rule decode_field_loop_marker)
  moreover have "decode_field bits frame_idx (take (Suc k) code @ rest) =
      Some (0, DECODE_FAILURE, SAMPLES_PER_SEC)"
    unfolding decode_field_def
  proof (rule decode_field_loop_marker [where k = k and s = s])
    show "k < length (take (Suc k) code @ rest)"
      using assms(1) by simp
    show "decode_sec bits (frame_idx + bit_c ((take (Suc k) code @ rest) ! k) * SAMPLES_PER_SEC)
        = Some (2, s)"
      using assms(1,2) by (simp add: nth_append)
    show "\<forall>j<k. decode_sec bits
        (frame_idx + bit_c ((take (Suc k) code @ rest) ! j) * SAMPLES_PER_SEC) \<noteq> None"
      using assms(1,3) by (simp add: nth_append)
  qed
  ultimately show ?thesis
    by (simp add: DECODE_FAILURE_def sample_consts)
qed

lemma marker_after_zero_buffer:
  "decode_sec (replicate 480 0 @ replicate 40 1 @ replicate 4280 0) 480 = Some (0, 8)"
  "decode_sec (replicate 480 0 @ replicate 40 1 @ replicate 4280 0) 520 = Some (2, 8)"
proof -
  show "decode_sec (replicate 480 0 @ replicate 40 1 @ replicate 4280 0) 480 = Some (0, 8)"
    by (rule decode_sec_one_span) (simp_all add: sample_consts nth_append)
  show "decode_sec (replicate 480 0 @ replicate 40 1 @ replicate 4280 0) 520 = Some (2, 8)"
    using decode_sec_zero_span [of 520 "replicate 480 0 @ replicate 40 1 @ replicate 4280 0"]
    by (simp add: sample_consts nth_append)
qed

theorem decode_field_marker_fails_witness:
  "decode_sec (replicate 480 0 @ replicate 40 1 @ replicate 4280 0)
     (0 + bit_c (hours_code ! 0) * SAMPLES_PER_SEC) = Some (0, 8) \<and>
   decode_sec (replicate 480 0 @ replicate 40 1 @ replicate 4280 0)
     (0 + bit_c (hours_code ! Suc 0) * SAMPLES_PER_SEC) = Some (2, 8) \<and>
   decode_field (replicate 480 0 @ replicate 40 1 @ replicate 4280 0) 0 hours_code =
     Some (0, 9999, 40) \<and>
   decode_field (replicate 480 0 @ replicate 40 1 @ replicate 4280 0) 0
     (take (Suc (Suc 0)) hours_code @ [\<lparr>bit_c = 4000, weight = 1\<rparr>]) = Some (0, 9999, 40)"
proof -
  let ?b = "replicate 480 0 @ replicate 40 1 @ replicate 4280 (0 :: u8)"
  have p: "hours_code ! 0 = \<lparr>bit_c = 12, weight = 20\<rparr>"
    "hours_code ! Suc 0 = \<lparr>bit_c = 13, weight = 10\<rparr>" "Suc 0 < length hours_code"
    by (simp_all add: hours_code_def codes_def)
  have z: "decode_sec ?b (0 + bit_c (hours_code ! 0) * SAMPLES_PER_SEC) = Some (0, 8)"
    using marker_after_zero_buffer(1) by (simp add: p sample_consts)
  have m: "decode_sec ?b (0 + bit_c (hours_code ! Suc 0) * SAMPLES_PER_SEC) = Some (2, 8)"
    using marker_after_zero_buffer(2) by (simp add: p sample_consts)
  have v: "\<forall>j<Suc 0. decode_sec ?b (0 + bit_c (hours_code ! j) * SAMPLES_PER_SEC) \<noteq> None"
    using z by simp
  from decode_field_marker_fails [OF p(3) m v, of "[\<lparr>bit_c = 4000, weight = 1\<rparr>]"] z m
  show ?thesis
    by simp
qed

lemma decode_field_loop_no_marker:
  assumes "map (\<lambda>c. decode_sec bits (frame_idx + bit_c c * SAMPLES_PER_SEC)) code = map Some rs"
    and "\<forall>p\<in>set rs. fst p \<noteq> 2"
  shows "decode_field_loop bits frame_idx code lscore worst_score field_val =
    Some (field_val + sum_list (map2 (\<lambda>c p. weight c * fst p) code rs),
          lscore + sum_list (map snd rs),
          fold max (map snd rs) worst_score)"
  using assms
proof (induction code arbitrary: rs lscore worst_score field_val)
  case Nil
  then show ?case by simp
next
  case (Cons c cs)
  from Cons.prems(1) obtain p rs' where rs: "rs = p # rs'"
    by (cases rs) auto
  obtain r sc where p: "p = (r, sc)"
    by (cases p)
  from Cons.prems rs p have
    d: "decode_sec bits (frame_idx + bit_c c * SAMPLES_PER_SEC) = Some (r, sc)" and
    m: "map (\<lambda>c. decode_sec bits (frame_idx + bit_c c * SAMPLES_PER_SEC)) cs = map Some rs'" and
    n: "\<forall>p\<in>set rs'. fst p \<noteq> 2" and r2: "r \<noteq> 2"
    by auto
  have w: "(if worst_score < sc then sc else worst_score) = max sc worst_score"
    by (auto simp: max_def)
  from Cons.IH [OF m n] d r2 show ?case
    by (simp add: rs p Let_def w add.assoc)
qed

lemma unat_sum_list:
  "sum_list (map unat ws) < 2 ^ 32 \<Longrightarrow> unat (sum_list ws) = sum_list (map unat ws)"
  for ws :: "u32 list"
proof (induction ws)
  case Nil
  show ?case by simp
next
  case (Cons w ws)
  then have "unat (sum_list ws) = sum_list (map unat ws)"
    by simp
  moreover from this Cons.prems have "unat w + unat (sum_list ws) < 2 ^ LENGTH(32)"
    by simp
  then have "unat (w + sum_list ws) = unat w + unat (sum_list ws)"
    by (simp add: unat_add_lem [THEN iffD1])
  ultimately show ?case
    by simp
qed

lemma weighted_bits_unat:
  assumes "length (code :: code_t list) = length rs"
    and "\<forall>p\<in>set rs. fst p = 0 \<or> fst p = 1"
    and "sum_list (map (unat \<circ> weight) code) < 2 ^ 32"
  shows "unat (sum_list (map2 (\<lambda>c p. weight c * fst p) code rs)) =
    sum_list (map2 (\<lambda>c p. unat (weight c) * unat (fst p)) code (rs :: (u32 \<times> u32) list))"
proof -
  have prod: "unat (weight c * fst p) = unat (weight c) * unat (fst p)"
    if "fst p = 0 \<or> fst p = 1" for c :: code_t and p :: "u32 \<times> u32"
    using that by auto
  from assms(1,2) have eq: "map unat (map2 (\<lambda>c p. weight c * fst p) code rs) =
      map2 (\<lambda>c p. unat (weight c) * unat (fst p)) code rs"
  proof (induction code rs rule: list_induct2)
    case Nil
    show ?case by simp
  next
    case (Cons c cs p ps)
    then have "fst p = 0 \<or> fst p = 1"
      by simp
    from prod [OF this] Cons show ?case
      by simp
  qed
  from assms(1,2) have le: "sum_list (map2 (\<lambda>c p. unat (weight c) * unat (fst p)) code rs) \<le>
      sum_list (map (unat \<circ> weight) code)"
  proof (induction code rs rule: list_induct2)
    case Nil
    show ?case by simp
  next
    case (Cons c cs p ps)
    then have "unat (weight c) * unat (fst p) \<le> unat (weight c)"
      by auto
    with Cons show ?case
      by (simp add: add_mono)
  qed
  from le assms(3) have "sum_list (map unat (map2 (\<lambda>c p. weight c * fst p) code rs)) < 2 ^ 32"
    unfolding eq by simp
  from unat_sum_list [OF this] show ?thesis
    unfolding eq .
qed

lemma sum_list_all_zero: "\<forall>x\<in>set xs. x = 0 \<Longrightarrow> sum_list xs = 0" for xs :: "u32 list"
  by (induction xs) simp_all

lemma classified_syms:
  assumes "map (\<lambda>c :: code_t. decode_sec bits (frame_idx + bit_c c * SAMPLES_PER_SEC)) code = map Some rs"
    and "\<forall>p\<in>set rs. fst p \<noteq> 2"
  shows "\<forall>p\<in>set rs. fst p = 0 \<or> fst p = 1"
proof
  fix p
  assume p: "p \<in> set rs"
  define f where "f = (\<lambda>c :: code_t. decode_sec bits (frame_idx + bit_c c * SAMPLES_PER_SEC))"
  from assms(1) have "map f code = map Some rs"
    by (simp add: f_def)
  then have "set (map f code) = set (map Some rs)"
    by simp
  with p have "Some p \<in> f ` set code"
    by simp
  then obtain c where "Some p = f c"
    by (rule imageE)
  then have "decode_sec bits (frame_idx + bit_c c * SAMPLES_PER_SEC) = Some (fst p, snd p)"
    by (simp add: f_def)
  then have "fst p = 0 \<or> fst p = 1 \<or> fst p = 2"
    by (rule decode_sec_sym)
  with assms(2) p show "fst p = 0 \<or> fst p = 1"
    by auto
qed

text \<open>
  C6. Let \<open>rs\<close> be the list of the classifications (symbol, score) of the positions of
  the field's code, none of them MARKER (2). Then every symbol is 0 or 1, and
  \<open>decode_field\<close> returns the sum of weight times symbol as value, the sum of the scores
  as score, and the maximum of the scores (0 for an empty code) as worst score. The sums
  are \<open>uint32_t\<close> sums; they are the sums of natural numbers whenever those stay below
  \<open>2 ^ 32\<close>, which the total weight of every table of \<open>frame\<close> does. If every position
  is a perfect match (score 0), the score and the worst score are 0.
\<close>

theorem decode_field_no_marker:
  assumes "map (\<lambda>c. decode_sec bits (frame_idx + bit_c c * SAMPLES_PER_SEC)) code = map Some rs"
    and "\<forall>p\<in>set rs. fst p \<noteq> 2"
  shows "\<exists>val score worst. decode_field bits frame_idx code = Some (val, score, worst) \<and>
    val = sum_list (map2 (\<lambda>c p. weight c * fst p) code rs) \<and>
    score = sum_list (map snd rs) \<and>
    worst = Max (insert 0 (set (map snd rs))) \<and>
    (\<forall>p\<in>set rs. fst p = 0 \<or> fst p = 1) \<and>
    ((\<forall>p\<in>set rs. snd p = 0) \<longrightarrow> score = 0 \<and> worst = 0) \<and>
    (sum_list (map (unat \<circ> weight) code) < 2 ^ 32 \<longrightarrow>
       unat val = sum_list (map2 (\<lambda>c p. unat (weight c) * unat (fst p)) code rs)) \<and>
    (sum_list (map (unat \<circ> snd) rs) < 2 ^ 32 \<longrightarrow>
       unat score = sum_list (map (unat \<circ> snd) rs))"
proof -
  let ?val = "sum_list (map2 (\<lambda>c p. weight c * fst p) code rs)"
  let ?score = "sum_list (map snd rs)"
  let ?worst = "Max (insert 0 (set (map snd rs)))"
  have fm: "fold max (map snd rs) 0 = ?worst"
    using Max.set_eq_fold [of 0 "map snd rs"] by simp
  have run: "decode_field bits frame_idx code = Some (?val, ?score, ?worst)"
    using decode_field_loop_no_marker [OF assms, of 0 0 0] fm
    by (simp add: decode_field_def)
  have syms: "\<forall>p\<in>set rs. fst p = 0 \<or> fst p = 1"
    using assms by (rule classified_syms)
  have len: "length code = length rs"
    using assms(1) by (metis length_map)
  have perfect: "?score = 0 \<and> ?worst = 0" if z: "\<forall>p\<in>set rs. snd p = 0"
  proof -
    from z have "\<forall>x\<in>set (map snd rs). x = 0"
      by simp
    then have "?score = 0"
      by (rule sum_list_all_zero)
    moreover from z have e: "insert 0 (set (map snd rs)) = {0}"
      by auto
    have "?worst = 0"
      unfolding e by simp
    ultimately show ?thesis
      by simp
  qed
  have natval: "unat ?val = sum_list (map2 (\<lambda>c p. unat (weight c) * unat (fst p)) code rs)"
    if "sum_list (map (unat \<circ> weight) code) < 2 ^ 32"
    using len syms that by (rule weighted_bits_unat)
  have natscore: "unat ?score = sum_list (map (unat \<circ> snd) rs)"
    if "sum_list (map (unat \<circ> snd) rs) < 2 ^ 32"
    using unat_sum_list [of "map snd rs"] that by (simp add: comp_def)
  from run syms perfect natval natscore show ?thesis
    by blast
qed

lemma perfect_one_scores:
  "xor_zero (replicate 2220 0 @ replicate 2580 1) 2200 = Some 12"
  "xor_one (replicate 2220 0 @ replicate 2580 1) 2200 = Some 0"
  "xor_mark (replicate 2220 0 @ replicate 2580 1) 2200 = Some 12"
  by (simp_all add: xor_zero_eq xor_one_eq xor_mark_eq mism_append mism_replicate)

lemma perfect_one_sec: "decode_sec (replicate 2220 0 @ replicate 2580 1) 2200 = Some (1, 0)"
  using decode_sec_of_scores [OF perfect_one_scores] by simp

lemma noisy_dst_scores:
  "xor_zero (replicate 2297 0 @ replicate 23 1 @ replicate 10 0 @ replicate 30 1 @
     replicate 2440 0) 2280 = Some 9"
  "xor_one (replicate 2297 0 @ replicate 23 1 @ replicate 10 0 @ replicate 30 1 @
     replicate 2440 0) 2280 = Some 3"
  "xor_mark (replicate 2297 0 @ replicate 23 1 @ replicate 10 0 @ replicate 30 1 @
     replicate 2440 0) 2280 = Some 15"
  "xor_zero (replicate 2297 0 @ replicate 23 1 @ replicate 10 0 @ replicate 30 1 @
     replicate 2440 0) 2320 = Some 2"
  "xor_one (replicate 2297 0 @ replicate 23 1 @ replicate 10 0 @ replicate 30 1 @
     replicate 2440 0) 2320 = Some 10"
  "xor_mark (replicate 2297 0 @ replicate 23 1 @ replicate 10 0 @ replicate 30 1 @
     replicate 2440 0) 2320 = Some 22"
  by (simp_all add: xor_zero_eq xor_one_eq xor_mark_eq mism_append mism_replicate)

lemma noisy_dst_secs:
  "decode_sec (replicate 2297 0 @ replicate 23 1 @ replicate 10 0 @ replicate 30 1 @
     replicate 2440 0) 2280 = Some (1, 3)"
  "decode_sec (replicate 2297 0 @ replicate 23 1 @ replicate 10 0 @ replicate 30 1 @
     replicate 2440 0) 2320 = Some (0, 2)"
  using decode_sec_of_scores [OF noisy_dst_scores(1,2,3)]
    decode_sec_of_scores [OF noisy_dst_scores(4,5,6)]
  by simp_all

theorem decode_field_no_marker_witness:
  "decode_field (replicate 2220 0 @ replicate 2580 1) 0 lyi_code = Some (1, 0, 0) \<and>
   decode_field (replicate 2297 0 @ replicate 23 1 @ replicate 10 0 @ replicate 30 1 @
     replicate 2440 0) 0 dst_code = Some (2, 5, 3)"
proof -
  let ?b = "replicate 2297 0 @ replicate 23 1 @ replicate 10 0 @ replicate 30 1 @
     replicate 2440 (0 :: u8)"
  have p1: "map (\<lambda>c. decode_sec (replicate 2220 0 @ replicate 2580 1)
      (0 + bit_c c * SAMPLES_PER_SEC)) lyi_code = map Some [(1, 0)]"
    by (simp add: lyi_code_def codes_def sample_consts perfect_one_sec)
  have p2: "\<forall>p\<in>set [(1 :: u32, 0 :: u32)]. fst p \<noteq> 2"
    by simp
  have n1: "map (\<lambda>c. decode_sec ?b (0 + bit_c c * SAMPLES_PER_SEC)) dst_code =
      map Some [(1, 3), (0, 2)]"
    by (simp add: dst_code_def codes_def sample_consts noisy_dst_secs)
  have n2: "\<forall>p\<in>set [(1 :: u32, 3 :: u32), (0, 2)]. fst p \<noteq> 2"
    by simp
  from decode_field_no_marker [OF p1 p2] have
    "decode_field (replicate 2220 0 @ replicate 2580 1) 0 lyi_code = Some (1, 0, 0)"
    by (auto simp: lyi_code_def codes_def)
  moreover from decode_field_no_marker [OF n1 n2] have
    "decode_field ?b 0 dst_code = Some (2, 5, 3)"
    by (auto simp: dst_code_def codes_def)
  ultimately show ?thesis
    by simp
qed

section \<open>Claims about daynum_to_month_day\<close>

lemma leap_loop_runs_to_12:
  "leap_loop daysums_init 1 =
     leap_loop [31, 60, 91, 121, 152, 182, 213, 244, 274, 305, 335, 366] 12"
  by (simp add: leap_loop.simps [of _ 1] leap_loop.simps [of _ 2] leap_loop.simps [of _ 3]
      leap_loop.simps [of _ 4] leap_loop.simps [of _ 5] leap_loop.simps [of _ 6]
      leap_loop.simps [of _ 7] leap_loop.simps [of _ 8] leap_loop.simps [of _ 9]
      leap_loop.simps [of _ 10] leap_loop.simps [of _ 11] daysums_incr_def daysums_init_def)

lemma leap_loop_None: "leap_loop daysums_init 1 = None"
  unfolding leap_loop_runs_to_12 by (simp add: leap_loop.simps [of _ 12] daysums_incr_def)

lemma daynum_to_month_day_leap:
  "is_leap_year \<noteq> 0 \<Longrightarrow> daynum_to_month_day daynum is_leap_year = None"
  by (simp add: daynum_to_month_day_def leap_loop_None)

lemma month_loop_step:
  "month_loop daysums daynum month =
     (if month < 12 then
        (if daysums ! unat month < daynum
         then month_loop daysums daynum (month + 1) else Some month)
      else None)"
  by (subst month_loop.simps) (simp add: daysums_get_def)


lemma daynum_366_nonleap: "daynum_to_month_day 366 0 = None"
  by (simp add: daynum_to_month_day_def month_loop_step [of _ _ 0] month_loop_step [of _ _ 1]
      month_loop_step [of _ _ 2] month_loop_step [of _ _ 3] month_loop_step [of _ _ 4]
      month_loop_step [of _ _ 5] month_loop_step [of _ _ 6] month_loop_step [of _ _ 7]
      month_loop_step [of _ _ 8] month_loop_step [of _ _ 9] month_loop_step [of _ _ 10]
      month_loop_step [of _ _ 11] month_loop_step [of _ _ 12] daysums_init_def)

text \<open>
  Without the leap year every day number up to 365 stays inside the array: the month
  search stops at index 11 at the latest.
\<close>

lemma daynum_nonleap_in_range:
  assumes "daynum \<le> 365"
  shows "\<exists>month day. daynum_to_month_day daynum 0 = Some (month, day) \<and> 1 \<le> month \<and> month \<le> 12"
proof -
  from assms have "\<not> 365 < daynum"
    by (simp add: not_less)
  then show ?thesis
    by (simp add: daynum_to_month_day_def month_loop_step [of _ _ 0] month_loop_step [of _ _ 1]
      month_loop_step [of _ _ 2] month_loop_step [of _ _ 3] month_loop_step [of _ _ 4]
      month_loop_step [of _ _ 5] month_loop_step [of _ _ 6] month_loop_step [of _ _ 7]
      month_loop_step [of _ _ 8] month_loop_step [of _ _ 9] month_loop_step [of _ _ 10]
      month_loop_step [of _ _ 11] daysums_init_def daysums_get_def)
qed

text \<open>
  C7 fails on the code. With \<open>is_leap_year\<close> set, the loop \<open>for (i = 1; i < 13; i++)\<close>
  increments the entries 1 to 11 and then runs once more with \<open>i = 12\<close>, an index outside
  the 12 entries; this happens for every day number, here 60. Without the leap year,
  day number 366 makes the month search read index 12.
\<close>

theorem daysums_index_12:
  "leap_loop daysums_init 1 =
     leap_loop [31, 60, 91, 121, 152, 182, 213, 244, 274, 305, 335, 366] 12 \<and>
   daysums_incr [31, 60, 91, 121, 152, 182, 213, 244, 274, 305, 335, 366] 12 = None \<and>
   daynum_to_month_day 60 1 = None \<and>
   daynum_to_month_day 366 0 = None"
  using leap_loop_runs_to_12 daynum_to_month_day_leap [of 1 60] daynum_366_nonleap
  by (simp add: daysums_incr_def)



lemma month_loop_cells_step:
  "month_loop_cells cells daynum month =
     (if month < 13 then
        (if cells ! unat month < daynum
         then month_loop_cells cells daynum (month + 1) else Some month)
      else None)"
  by (subst month_loop_cells.simps) (simp add: cells_get_def)

lemma month_loop_cells_agrees:
  assumes "length daysums = 12" and "month_loop daysums daynum month = Some r"
  shows "month_loop_cells (daysums @ [past]) daynum month = Some r"
  using assms
proof (induction daysums daynum month rule: month_loop.induct)
  case (1 daysums daynum month)
  from "1.prems"(2) have lt: "month < 12"
    by (subst (asm) month_loop.simps) (simp add: daysums_get_def split: if_splits)
  then have u: "unat month < 12"
    by (simp add: word_less_nat_alt)
  with "1.prems"(1) have nth: "(daysums @ [past]) ! unat month = daysums ! unat month"
    by (simp add: nth_append)
  from lt have g: "daysums_get daysums month = Some (daysums ! unat month)"
    by (simp add: daysums_get_def)
  from u have lt13: "month < 13"
    by (simp add: word_less_nat_alt)
  show ?case
  proof (cases "daysums ! unat month < daynum")
    case True
    with "1.prems"(2) lt have "month_loop daysums daynum (month + 1) = Some r"
      by (subst (asm) month_loop.simps) (simp add: daysums_get_def)
    from "1.IH" [OF g True "1.prems"(1) this] True lt13 nth show ?thesis
      by (subst month_loop_cells_step) simp
  next
    case False
    with "1.prems"(2) lt have "r = month"
      by (subst (asm) month_loop.simps) (simp add: daysums_get_def)
    with False lt13 nth show ?thesis
      by (subst month_loop_cells_step) simp
  qed
qed

lemma daynum_to_month_day_cells_agrees:
  assumes "daynum_to_month_day daynum is_leap_year = Some r"
  shows "daynum_to_month_day_cells past daynum is_leap_year = Some r"
proof -
  from assms have nl: "is_leap_year = 0"
    using daynum_to_month_day_leap [of is_leap_year daynum] by auto
  with assms obtain month where
    m: "month_loop daysums_init daynum 0 = Some month"
    by (auto simp: daynum_to_month_day_def split: option.splits)
  have len: "length daysums_init = 12"
    by (simp add: daysums_init_def)
  from month_loop_cells_agrees [OF len m] have
    mc: "month_loop_cells (daysums_init @ [past]) daynum 0 = Some month" .
  show ?thesis
  proof (cases "0 < month")
    case False
    with assms nl m mc show ?thesis
      by (simp add: daynum_to_month_day_def daynum_to_month_day_cells_def)
  next
    case True
    with assms nl m have lt: "month - 1 < 12"
      by (auto simp: daynum_to_month_day_def daysums_get_def split: option.splits if_splits)
    then have "unat (month - 1) < 12"
      by (simp add: word_less_nat_alt)
    with len have "(daysums_init @ [past]) ! unat (month - 1) = daysums_init ! unat (month - 1)"
      "month - 1 < 13"
      by (simp_all add: nth_append word_less_nat_alt)
    with assms nl m mc True lt show ?thesis
      by (simp add: daynum_to_month_day_def daynum_to_month_day_cells_def daysums_get_def
          cells_get_def)
  qed
qed


section \<open>Claim about the reliability summary\<close>

text \<open>
  C9. The verdict printed by \<open>main\<close> is LIKELY OK for a worst score below 7, NOT
  RELIABLE from 7 to 9, and PROBABLY BAD from 10 on; in particular 6, 9 and 10 give
  LIKELY OK, NOT RELIABLE and PROBABLY BAD.
\<close>

theorem summary_verdict_tiers:
  "(s < 7 \<longrightarrow> summary_verdict s = LIKELY_OK) \<and>
   (7 \<le> s \<and> s < 10 \<longrightarrow> summary_verdict s = NOT_RELIABLE) \<and>
   (10 \<le> s \<longrightarrow> summary_verdict s = PROBABLY_BAD) \<and>
   summary_verdict 6 = LIKELY_OK \<and> summary_verdict 9 = NOT_RELIABLE \<and>
   summary_verdict 10 = PROBABLY_BAD"
  by (auto simp: summary_verdict_def word_less_nat_alt word_le_nat_alt)

theorem summary_verdict_tiers_witness:
  "(6 :: u32) < 7 \<and> summary_verdict 6 = LIKELY_OK \<and>
   (7 :: u32) \<le> 7 \<and> (7 :: u32) < 10 \<and> summary_verdict 7 = NOT_RELIABLE \<and>
   (10 :: u32) \<le> 4294967295 \<and> summary_verdict 4294967295 = PROBABLY_BAD"
  using summary_verdict_tiers [of 6] summary_verdict_tiers [of 7]
    summary_verdict_tiers [of 4294967295]
  by simp

end
